theory Spec2Isabelle
  imports Complex_Main
begin

section \<open>The table generator of mysql\_data\_generator\<close>

text \<open>
  A shallow embedding of \<^verbatim>\<open>src/generation/generator.ts\<close>: the class
  \<^verbatim>\<open>Generator\<close> with its methods \<^verbatim>\<open>empty\<close>,
  \<^verbatim>\<open>getForeignKeyValues\<close>, \<^verbatim>\<open>fill\<close>,
  \<^verbatim>\<open>before\<close>, \<^verbatim>\<open>generateData\<close> and
  \<^verbatim>\<open>after\<close>.

  Row counts, batch sizes and column bounds are JavaScript numbers that hold integers;
  they are modelled as \<open>int\<close>. The database connector and the sources of randomness
  are collaborators of the generator: they are parameters of the model, functions over an
  abstract world \<open>'w\<close> that they read and change. Every \<^verbatim>\<open>await\<close> of
  the source is a sequencing point of the state passing; an exception is the left summand
  of a result.
\<close>

subsection \<open>Values, exceptions and descriptors\<close>

text \<open>The values a row cell can hold.\<close>

datatype jsval = JUndefined | JNull | JNum rat | JStr string

text \<open>
  Thrown values. \<open>Error m\<close> is \<^verbatim>\<open>new Error(m)\<close> (also what a connector
  throws); \<open>TypeError\<close> and \<open>RangeError\<close> are raised by the runtime.
\<close>

datatype exn = Error string | TypeError | RangeError

fun message :: "exn \<Rightarrow> string" where
  "message (Error m) = m"
| "message TypeError = ''TypeError''"
| "message RangeError = ''RangeError''"

type_synonym row = "string \<rightharpoonup> jsval"

text \<open>
  Modelled from the spec: the declarations of \<^verbatim>\<open>TableDescriptor\<close>,
  \<^verbatim>\<open>Column\<close> and \<^verbatim>\<open>Schema\<close> are imported by the generator
  and missing from the sources. The records below hold the fields the generator reads,
  with the field \<^verbatim>\<open>lines\<close> of \<^verbatim>\<open>BaseTable\<close>; an optional
  field is an \<open>option\<close>. Bounds \<^verbatim>\<open>min\<close> and \<^verbatim>\<open>max\<close>
  are numbers (a date bound is its time in milliseconds).
\<close>

record foreignKey =
  fk_table :: string
  fk_column :: string
  fk_where :: "string option"

record options =
  o_nullable :: bool
  o_unique :: bool
  o_autoIncrement :: bool
  o_min :: int
  o_max :: int

text \<open>
  The three shapes of \<^verbatim>\<open>column.values\<close>: an array of literals, the name of
  a pool of \<^verbatim>\<open>schema.values\<close>, or an object from value to weight (its keys
  in the order of \<^verbatim>\<open>Object.keys\<close>).
\<close>

datatype colvalues = Literal "jsval list" | NamedPool string | Weighted "(string \<times> int) list"

record column =
  c_name :: string
  c_generator :: string
  c_options :: options
  c_foreignKey :: "foreignKey option"
  c_values :: "colvalues option"

record table =
  t_name :: string
  t_lines :: "int option"
  t_columns :: "column list"
  t_before :: "string list option"
  t_after :: "string list option"
  t_maxLines :: "int option"
  t_addLines :: "int option"

record schema =
  s_maxCharLength :: int
  s_values :: "string \<rightharpoonup> jsval list"

subsection \<open>The collaborators\<close>

text \<open>
  The interface \<^verbatim>\<open>DatabaseConnector\<close>, as far as the generator calls it.
  Each call reads and changes the world and either returns or throws.
  \<open>insert_rows\<close> is the connector's \<^verbatim>\<open>insert\<close>.
\<close>

record 'w connector =
  countLines :: "table \<Rightarrow> 'w \<Rightarrow> (exn + int) \<times> 'w"
  emptyTable :: "table \<Rightarrow> 'w \<Rightarrow> (exn + unit) \<times> 'w"
  executeRawQuery :: "string \<Rightarrow> 'w \<Rightarrow> (exn + unit) \<times> 'w"
  getValuesForForeignKeys ::
    "string \<Rightarrow> string \<Rightarrow> string \<Rightarrow> string \<Rightarrow> int \<Rightarrow> bool \<Rightarrow> string option
      \<Rightarrow> 'w \<Rightarrow> (exn + jsval list) \<times> 'w"
  insert_rows :: "string \<Rightarrow> row list \<Rightarrow> 'w \<Rightarrow> (exn + int) \<times> 'w"

text \<open>
  Modelled from the spec: \<^verbatim>\<open>randomizer.ts\<close> is missing from the sources, and
  \<^verbatim>\<open>uuid4\<close>, \<^verbatim>\<open>Math.random\<close> and the clock belong to the
  runtime. The spec describes the Randomizer as a utility producing primitive values
  (integers, floats, bit patterns, fixed-length strings, dates); each primitive is a
  parameter that draws from the world. \<open>mathRandom\<close> is \<^verbatim>\<open>Math.random()\<close>,
  a double and so a rational; \<open>uuid4\<close> is
  \<^verbatim>\<open>uuid4(MersenneTwister19937.autoSeed())\<close>; \<open>dateNow\<close> is the time of
  \<^verbatim>\<open>new Date()\<close> and \<open>dateEpoch\<close> that of
  \<^verbatim>\<open>new Date('01-01-1970')\<close>, which depends on the time zone;
  \<open>floorTimes x n\<close> is \<^verbatim>\<open>Math.floor(x * n)\<close>, the floor of the product
  as the runtime rounds it to a double (it can exceed the floor of the exact product).
\<close>

record 'w randomizer =
  randomInt :: "int \<Rightarrow> int \<Rightarrow> 'w \<Rightarrow> int \<times> 'w"
  randomBit :: "int \<Rightarrow> 'w \<Rightarrow> jsval \<times> 'w"
  randomFloat :: "int \<Rightarrow> int \<Rightarrow> 'w \<Rightarrow> jsval \<times> 'w"
  randomDate :: "int \<Rightarrow> int \<Rightarrow> 'w \<Rightarrow> jsval \<times> 'w"
  randomString :: "int \<Rightarrow> 'w \<Rightarrow> string \<times> 'w"
  mathRandom :: "'w \<Rightarrow> rat \<times> 'w"
  uuid4 :: "'w \<Rightarrow> string \<times> 'w"
  dateNow :: "'w \<Rightarrow> int \<times> 'w"
  dateEpoch :: int
  floorTimes :: "rat \<Rightarrow> int \<Rightarrow> int"

subsection \<open>The state of a run\<close>

text \<open>
  What a run leaves behind: the world, the connector calls it made, in order, and the
  lines it wrote to the console.
\<close>

datatype call =
    CountLines string
  | EmptyTable string
  | ExecuteRawQuery string
  | GetValuesForForeignKeys string string string string int bool "string option"
  | Insert string "row list"

datatype logline = Log string | Warn string

record 'w state =
  world :: 'w
  calls :: "call list"
  console :: "logline list"

definition consoleLog :: "string \<Rightarrow> 'w state \<Rightarrow> 'w state" where
  "consoleLog m st = st\<lparr>console := console st @ [Log m]\<rparr>"

definition consoleWarn :: "string \<Rightarrow> 'w state \<Rightarrow> 'w state" where
  "consoleWarn m st = st\<lparr>console := console st @ [Warn m]\<rparr>"

text \<open>A connector call: it is recorded, and the world moves on.\<close>

definition invoke :: "call \<Rightarrow> ('w \<Rightarrow> 'a \<times> 'w) \<Rightarrow> 'w state \<Rightarrow> 'a \<times> 'w state" where
  "invoke c f st =
     (case f (world st) of
        (r, w) \<Rightarrow> (r, st\<lparr>world := w, calls := calls st @ [c]\<rparr>))"

subsection \<open>Numbers as text\<close>

fun showNat :: "nat \<Rightarrow> string" where
  "showNat n =
     (if n < 10 then [char_of (48 + n)]
      else showNat (n div 10) @ [char_of (48 + n mod 10)])"

definition showInt :: "int \<Rightarrow> string" where
  "showInt i = (if i < 0 then CHR ''-'' # showNat (nat (- i)) else showNat (nat i))"

text \<open>\<^verbatim>\<open>'' + table.maxLines\<close>: an absent field prints as \<^verbatim>\<open>undefined\<close>.\<close>

definition showOptional :: "int option \<Rightarrow> string" where
  "showOptional x = (case x of None \<Rightarrow> ''undefined'' | Some n \<Rightarrow> showInt n)"

subsection \<open>empty, before, after\<close>

definition empty_tbl :: "'w connector \<Rightarrow> table \<Rightarrow> 'w state \<Rightarrow> (exn + unit) \<times> 'w state" where
  "empty_tbl C t st =
     invoke (EmptyTable (t_name t)) (emptyTable C t) (consoleLog (''empty:  '' @ t_name t) st)"

text \<open>
  \<^verbatim>\<open>for (const query of qs) await executeRawQuery(query)\<close>: a query that throws
  ends the loop and the exception leaves the method.
\<close>

fun runQueries :: "'w connector \<Rightarrow> string list \<Rightarrow> 'w state \<Rightarrow> (exn + unit) \<times> 'w state" where
  "runQueries C [] st = (Inr (), st)"
| "runQueries C (q # qs) st =
     (case invoke (ExecuteRawQuery q) (executeRawQuery C q) st of
        (Inl ex, st') \<Rightarrow> (Inl ex, st')
      | (Inr u, st') \<Rightarrow> runQueries C qs st')"

definition before :: "'w connector \<Rightarrow> table \<Rightarrow> 'w state \<Rightarrow> (exn + unit) \<times> 'w state" where
  "before C t st =
     (case t_before t of None \<Rightarrow> (Inr (), st) | Some qs \<Rightarrow> runQueries C qs st)"

definition after :: "'w connector \<Rightarrow> table \<Rightarrow> 'w state \<Rightarrow> (exn + unit) \<times> 'w state" where
  "after C t st =
     (case t_after t of None \<Rightarrow> (Inr (), st) | Some qs \<Rightarrow> runQueries C qs st)"

subsection \<open>Foreign-key pools\<close>

type_synonym pools = "string \<rightharpoonup> jsval list"

text \<open>The key \<^verbatim>\<open>`${column.name}_${foreignKey.table}_${foreignKey.column}`\<close>.\<close>

definition poolKey :: "column \<Rightarrow> foreignKey \<Rightarrow> string" where
  "poolKey c fk = c_name c @ ''_'' @ fk_table fk @ ''_'' @ fk_column fk"

text \<open>The message of the error thrown for a required column without values.\<close>

definition notEnough :: "foreignKey \<Rightarrow> string" where
  "notEnough fk =
     ''[object Object]: Not enough values available for foreign key ''
       @ fk_table fk @ ''.'' @ fk_column fk"

definition fetchCall :: "table \<Rightarrow> column \<Rightarrow> foreignKey \<Rightarrow> int \<Rightarrow> call" where
  "fetchCall t c fk runRows =
     GetValuesForForeignKeys (t_name t) (c_name c) (fk_table fk) (fk_column fk) runRows
       (o_unique (c_options c)) (fk_where fk)"

definition fetch ::
  "'w connector \<Rightarrow> table \<Rightarrow> column \<Rightarrow> foreignKey \<Rightarrow> int \<Rightarrow> 'w \<Rightarrow> (exn + jsval list) \<times> 'w" where
  "fetch C t c fk runRows =
     getValuesForForeignKeys C (t_name t) (c_name c) (fk_table fk) (fk_column fk) runRows
       (o_unique (c_options c)) (fk_where fk)"

text \<open>
  \<^verbatim>\<open>getForeignKeyValues\<close>, by recursion over the columns still to visit. It
  returns the exception it ends with, if any, the pools as it left them and the state.
\<close>

fun getForeignKeyValues ::
  "'w connector \<Rightarrow> table \<Rightarrow> column list \<Rightarrow> pools \<Rightarrow> int \<Rightarrow> 'w state
     \<Rightarrow> exn option \<times> pools \<times> 'w state" where
  "getForeignKeyValues C t [] tableForeignKeyValues runRows st =
     (None, tableForeignKeyValues, st)"
| "getForeignKeyValues C t (c # cs) tableForeignKeyValues runRows st =
     (case c_foreignKey c of
        None \<Rightarrow> getForeignKeyValues C t cs tableForeignKeyValues runRows st
      | Some fk \<Rightarrow>
          (case invoke (fetchCall t c fk runRows) (fetch C t c fk runRows) st of
             (Inl ex, st') \<Rightarrow> (Some ex, tableForeignKeyValues, st')
           | (Inr vals, st') \<Rightarrow>
               if length vals = 0 \<and> \<not> o_nullable (c_options c)
               then (Some (Error (notEnough fk)), tableForeignKeyValues, st')
               else getForeignKeyValues C t cs
                      (tableForeignKeyValues(poolKey c fk \<mapsto> vals)) runRows st'))"

subsection \<open>Synthesis of one value\<close>

text \<open>Reading an array at an index: \<^verbatim>\<open>undefined\<close> outside the array.\<close>

definition elemAt :: "jsval list \<Rightarrow> int \<Rightarrow> jsval" where
  "elemAt xs i = (if 0 \<le> i \<and> i < int (length xs) then xs ! nat i else JUndefined)"

definition num :: "int \<Rightarrow> jsval" where
  "num n = JNum (of_int n)"

text \<open>The literal \<^verbatim>\<open>0.1\<close>: the double nearest to one tenth.\<close>

definition js_tenth :: rat where
  "js_tenth = 3602879701896397 / 36028797018963968"

text \<open>
  \<^verbatim>\<open>if (column.options.nullable && Math.random() <= 0.1) row[column.name] = null\<close>,
  after the value \<open>v\<close> was stored: \<^verbatim>\<open>Math.random\<close> is called for a
  nullable column only.
\<close>

definition orNull :: "'w randomizer \<Rightarrow> column \<Rightarrow> jsval \<Rightarrow> 'w \<Rightarrow> jsval option \<times> 'w" where
  "orNull R c v w =
     (if o_nullable (c_options c)
      then (case mathRandom R w of (r, w') \<Rightarrow> (Some (if r \<le> js_tenth then JNull else v), w'))
      else (Some v, w))"

text \<open>
  The \<^verbatim>\<open>switch (column.generator)\<close>: the value stored for the column, or
  \<open>None\<close> when no case matches and nothing is stored. The product of the
  \<^verbatim>\<open>enum\<close> case is a product of doubles and is left to the runtime.
\<close>

definition generated :: "'w randomizer \<Rightarrow> schema \<Rightarrow> column \<Rightarrow> 'w \<Rightarrow> jsval option \<times> 'w" where
  "generated R sch c w =
     (let g = c_generator c; opt = c_options c in
      if g = ''bit'' then
        (case randomBit R (o_max opt) w of (v, w1) \<Rightarrow> orNull R c v w1)
      else if g = ''tinyint'' then
        (case randomInt R (o_min opt) (o_max opt) w of (n, w1) \<Rightarrow> orNull R c (num n) w1)
      else if g = ''bool'' \<or> g = ''boolean'' then
        (case randomInt R 0 1 w of (n, w1) \<Rightarrow> orNull R c (num n) w1)
      else if g = ''smallint'' then
        (case randomInt R (o_min opt) (o_max opt) w of (n, w1) \<Rightarrow> orNull R c (num n) w1)
      else if g = ''mediumint'' then
        (case randomInt R (o_min opt) (o_max opt) w of (n, w1) \<Rightarrow> orNull R c (num n) w1)
      else if g = ''int'' \<or> g = ''integer'' \<or> g = ''bigint'' then
        (case randomInt R (o_min opt) (o_max opt) w of (n, w1) \<Rightarrow> orNull R c (num n) w1)
      else if g = ''decimal'' \<or> g = ''dec'' \<or> g = ''float'' \<or> g = ''double'' then
        (case randomFloat R (o_min opt) (o_max opt) w of (v, w1) \<Rightarrow> orNull R c v w1)
      else if g = ''date'' \<or> g = ''datetime'' \<or> g = ''timestamp'' then
        (let lo = (if o_min opt \<noteq> 0 then o_min opt else dateEpoch R) in
         case (if o_max opt \<noteq> 0 then (o_max opt, w) else dateNow R w) of (hi, w0) \<Rightarrow>
         case randomDate R lo hi w0 of (v, w1) \<Rightarrow> orNull R c v w1)
      else if g = ''time'' then
        (case randomInt R (- 838) 838 w of (hours, w1) \<Rightarrow>
         case randomInt R 0 59 w1 of (minutes, w2) \<Rightarrow>
         case randomInt R 0 59 w2 of (seconds, w3) \<Rightarrow>
           orNull R c (JStr (showInt hours @ '':'' @ showInt minutes @ '':'' @ showInt seconds)) w3)
      else if g = ''year'' then
        (case randomInt R (o_min opt) (o_max opt) w of (n, w1) \<Rightarrow> orNull R c (num n) w1)
      else if g = ''varchar'' \<or> g = ''char'' \<or> g = ''binary'' \<or> g = ''varbinary'' then
        (if o_max opt \<ge> 36 \<and> o_unique opt then
           (case uuid4 R w of (u, w1) \<Rightarrow> (Some (JStr u), w1))
         else
           (case randomInt R (o_min opt) (min (s_maxCharLength sch) (o_max opt)) w of (n, w1) \<Rightarrow>
            case randomString R n w1 of (s, w2) \<Rightarrow> orNull R c (JStr s) w2))
      else if g = ''tinyblob'' then
        (case randomInt R 0 10 w of (n, w1) \<Rightarrow>
         case randomString R n w1 of (s, w2) \<Rightarrow> orNull R c (JStr s) w2)
      else if g = ''text'' \<or> g = ''mediumtext'' \<or> g = ''longtext'' then
        (case randomInt R 0 (min (s_maxCharLength sch) (o_max opt)) w of (n, w1) \<Rightarrow>
         case randomString R n w1 of (s, w2) \<Rightarrow> orNull R c (JStr s) w2)
      else if g = ''blob'' \<or> g = ''mediumblob'' \<or> g = ''longblob'' then
        (case randomInt R 0 (min (s_maxCharLength sch) (o_max opt)) w of (n, w1) \<Rightarrow>
         case randomString R n w1 of (s, w2) \<Rightarrow> orNull R c (JStr s) w2)
      else if g = ''set'' then
        (case randomBit R (o_max opt) w of (v, w1) \<Rightarrow> orNull R c v w1)
      else if g = ''enum'' then
        (case mathRandom R w of (r, w1) \<Rightarrow>
           if o_nullable opt
           then (Some (num (floorTimes R r (o_max opt + 1))), w1)
           else (Some (num (floorTimes R r (o_max opt) + 1)), w1))
      else (None, w))"

subsection \<open>The values override\<close>

text \<open>
  \<^verbatim>\<open>if (column.values)\<close>: an array or an object is truthy also when empty,
  the empty string is not.
\<close>

definition hasValues :: "column \<Rightarrow> bool" where
  "hasValues c =
     (case c_values c of
        None \<Rightarrow> False
      | Some (Literal vs) \<Rightarrow> True
      | Some (NamedPool p) \<Rightarrow> p \<noteq> []
      | Some (Weighted kws) \<Rightarrow> True)"

text \<open>
  \<^verbatim>\<open>valuesWithRatio\<close>: each key repeated as often as its weight.
  \<^verbatim>\<open>new Array(n)\<close> throws a RangeError unless \<open>0 \<le> n < 2^32\<close>.
\<close>

fun valuesWithRatio :: "(string \<times> int) list \<Rightarrow> jsval list \<Rightarrow> exn + jsval list" where
  "valuesWithRatio [] acc = Inr acc"
| "valuesWithRatio ((key, n) # kws) acc =
     (if n < 0 \<or> 4294967296 \<le> n then Inl RangeError
      else valuesWithRatio kws (acc @ replicate (nat n) (JStr key)))"

definition picked ::
  "'w randomizer \<Rightarrow> schema \<Rightarrow> colvalues \<Rightarrow> 'w \<Rightarrow> (exn + jsval) \<times> 'w" where
  "picked R sch vs w =
     (case vs of
        Literal xs \<Rightarrow>
          (case randomInt R 0 (int (length xs) - 1) w of (i, w1) \<Rightarrow> (Inr (elemAt xs i), w1))
      | NamedPool p \<Rightarrow>
          (case s_values sch p of
             None \<Rightarrow> (Inl TypeError, w)
           | Some xs \<Rightarrow>
               (case randomInt R 0 (int (length xs) - 1) w of (i, w1) \<Rightarrow> (Inr (elemAt xs i), w1)))
      | Weighted kws \<Rightarrow>
          (case valuesWithRatio kws [] of
             Inl ex \<Rightarrow> (Inl ex, w)
           | Inr xs \<Rightarrow>
               (case randomInt R 0 (int (length xs) - 1) w of (i, w1) \<Rightarrow> (Inr (elemAt xs i), w1))))"

subsection \<open>Rows\<close>

text \<open>
  The body of the loop over the columns, for the row at index \<open>i\<close> of the batch:
  the row with the column's value stored, or the exception.
\<close>

definition genColumn ::
  "'w randomizer \<Rightarrow> schema \<Rightarrow> pools \<Rightarrow> nat \<Rightarrow> column \<Rightarrow> row \<Rightarrow> 'w \<Rightarrow> (exn + row) \<times> 'w" where
  "genColumn R sch tableForeignKeyValues i c r w =
     (if o_autoIncrement (c_options c) then (Inr r, w)
      else if hasValues c then
        (case picked R sch (the (c_values c)) w of
           (Inl ex, w1) \<Rightarrow> (Inl ex, w1)
         | (Inr v, w1) \<Rightarrow> (Inr (r(c_name c \<mapsto> v)), w1))
      else
        (case c_foreignKey c of
           Some fk \<Rightarrow>
             (case tableForeignKeyValues (poolKey c fk) of
                None \<Rightarrow> (Inl TypeError, w)
              | Some foreignKeys \<Rightarrow> (Inr (r(c_name c \<mapsto> elemAt foreignKeys (int i))), w))
         | None \<Rightarrow>
             (case generated R sch c w of
                (None, w1) \<Rightarrow> (Inr r, w1)
              | (Some v, w1) \<Rightarrow> (Inr (r(c_name c \<mapsto> v)), w1))))"

fun genRow ::
  "'w randomizer \<Rightarrow> schema \<Rightarrow> pools \<Rightarrow> nat \<Rightarrow> column list \<Rightarrow> row \<Rightarrow> 'w \<Rightarrow> (exn + row) \<times> 'w" where
  "genRow R sch fkv i [] r w = (Inr r, w)"
| "genRow R sch fkv i (c # cs) r w =
     (case genColumn R sch fkv i c r w of
        (Inl ex, w1) \<Rightarrow> (Inl ex, w1)
      | (Inr r1, w1) \<Rightarrow> genRow R sch fkv i cs r1 w1)"

text \<open>
  \<^verbatim>\<open>for (let i = 0; i < runRows; i++)\<close>, by recursion over the indices still
  to visit; each row starts empty and is pushed to \<open>rows\<close>.
\<close>

fun genRows ::
  "'w randomizer \<Rightarrow> schema \<Rightarrow> pools \<Rightarrow> column list \<Rightarrow> nat list \<Rightarrow> row list \<Rightarrow> 'w
     \<Rightarrow> (exn + row list) \<times> 'w" where
  "genRows R sch fkv cols [] rows w = (Inr rows, w)"
| "genRows R sch fkv cols (i # is) rows w =
     (case genRow R sch fkv i cols Map.empty w of
        (Inl ex, w1) \<Rightarrow> (Inl ex, w1)
      | (Inr r, w1) \<Rightarrow> genRows R sch fkv cols is (rows @ [r]) w1)"

subsection \<open>generateData\<close>

text \<open>
  The target \<^verbatim>\<open>maxLines\<close> of the run, from the row count read at its start.
  \<^verbatim>\<open>if (table.addLines)\<close> and \<^verbatim>\<open>if (table.maxLines)\<close> test for
  a truthy number: the field is present and not \<open>0\<close>.
\<close>

definition truthy :: "int option \<Rightarrow> bool" where
  "truthy x = (case x of None \<Rightarrow> False | Some n \<Rightarrow> n \<noteq> 0)"

definition computeTarget :: "table \<Rightarrow> int \<Rightarrow> int" where
  "computeTarget t currentNbRows =
     (if truthy (t_addLines t) then
        (let maxLines = currentNbRows + the (t_addLines t) in
         if truthy (t_maxLines t) then min maxLines (the (t_maxLines t)) else maxLines)
      else if truthy (t_maxLines t) then the (t_maxLines t)
      else 0)"

definition stalled :: "table \<Rightarrow> string" where
  "stalled t = ''Last run didn't insert any new rows in '' @ t_name t"

text \<open>
  How one pass through the body of \<^verbatim>\<open>batch: while\<close> ends: at the end of the
  body, with the new row count; at a \<^verbatim>\<open>break batch\<close>; or with an exception
  that leaves \<^verbatim>\<open>generateData\<close>.
\<close>

datatype 'w step = Continue int pools "'w state" | Break "'w state" | Throw exn "'w state"

definition batch ::
  "'w connector \<Rightarrow> 'w randomizer \<Rightarrow> schema \<Rightarrow> table \<Rightarrow> int \<Rightarrow> int \<Rightarrow> pools \<Rightarrow> 'w state
     \<Rightarrow> 'w step" where
  "batch C R sch t maxLines currentNbRows tableForeignKeyValues st =
     (let previousRunRows = currentNbRows;
          runRows = min 1000 (maxLines - currentNbRows) in
      case getForeignKeyValues C t (t_columns t) tableForeignKeyValues runRows st of
        (Some ex, fkv, st1) \<Rightarrow> Break (consoleWarn (message ex) st1)
      | (None, fkv, st1) \<Rightarrow>
          (case genRows R sch fkv (t_columns t) [0..<nat runRows] [] (world st1) of
             (Inl ex, w2) \<Rightarrow> Throw ex (st1\<lparr>world := w2\<rparr>)
           | (Inr rows, w2) \<Rightarrow>
               (case invoke (Insert (t_name t) rows) (insert_rows C (t_name t) rows)
                       (st1\<lparr>world := w2\<rparr>) of
                  (Inl ex, st3) \<Rightarrow> Throw ex st3
                | (Inr inserted, st3) \<Rightarrow>
                    (let currentNbRows' = currentNbRows + inserted in
                     if previousRunRows = currentNbRows'
                     then Break (consoleWarn (stalled t) st3)
                     else Continue currentNbRows' fkv
                            (consoleLog (showInt currentNbRows' @ '' / ''
                               @ showOptional (t_maxLines t)) st3)))))"

text \<open>
  The loop \<^verbatim>\<open>batch: while (currentNbRows < maxLines)\<close>. It need not end, so
  its result is an option: \<open>None\<close> when it runs forever. A result is the exception
  that left the loop, or the value of \<^verbatim>\<open>currentNbRows\<close> when the loop was
  left, with the state.
\<close>

partial_function (option) batchLoop ::
  "'w connector \<Rightarrow> 'w randomizer \<Rightarrow> schema \<Rightarrow> table \<Rightarrow> int \<Rightarrow> int \<Rightarrow> pools \<Rightarrow> 'w state
     \<Rightarrow> ((exn + int) \<times> 'w state) option" where
  "batchLoop C R sch t maxLines currentNbRows tableForeignKeyValues st =
     (if currentNbRows < maxLines then
        (case batch C R sch t maxLines currentNbRows tableForeignKeyValues st of
           Continue currentNbRows' fkv st' \<Rightarrow> batchLoop C R sch t maxLines currentNbRows' fkv st'
         | Break st' \<Rightarrow> Some (Inr currentNbRows, st')
         | Throw ex st' \<Rightarrow> Some (Inl ex, st'))
      else Some (Inr currentNbRows, st))"

declare batchLoop.simps [code]

definition generateData ::
  "'w connector \<Rightarrow> 'w randomizer \<Rightarrow> schema \<Rightarrow> table \<Rightarrow> 'w state
     \<Rightarrow> ((exn + int) \<times> 'w state) option" where
  "generateData C R sch t st =
     (case invoke (CountLines (t_name t)) (countLines C t) st of
        (Inl ex, st') \<Rightarrow> Some (Inl ex, st')
      | (Inr currentNbRows, st') \<Rightarrow>
          batchLoop C R sch t (computeTarget t currentNbRows) currentNbRows Map.empty st')"

subsection \<open>fill\<close>

text \<open>
  \<^verbatim>\<open>fill(table, reset)\<close>. The test \<^verbatim>\<open>if (this.before)\<close> is of the
  method itself and always holds. \<open>None\<close> when the batch loop runs forever.
\<close>

definition fill ::
  "'w connector \<Rightarrow> 'w randomizer \<Rightarrow> schema \<Rightarrow> table \<Rightarrow> bool \<Rightarrow> 'w state
     \<Rightarrow> ((exn + unit) \<times> 'w state) option" where
  "fill C R sch t reset st =
     (case (if reset then empty_tbl C t st else (Inr (), st)) of
        (Inl ex, st0) \<Rightarrow> Some (Inl ex, st0)
      | (Inr u, st0) \<Rightarrow>
          (case before C t (consoleLog (''fill:  '' @ t_name t) st0) of
             (Inl ex, st1) \<Rightarrow> Some (Inl ex, st1)
           | (Inr u, st1) \<Rightarrow>
               (case generateData C R sch t st1 of
                  None \<Rightarrow> None
                | Some (Inl ex, st2) \<Rightarrow> Some (Inl ex, st2)
                | Some (Inr n, st2) \<Rightarrow> Some (after C t st2))))"

text \<open>
  The row count and the state with which \<^verbatim>\<open>fill\<close> enters the batch loop:
  after the reset, the \<^verbatim>\<open>before\<close> statements and
  \<^verbatim>\<open>countLines\<close>; \<open>None\<close> when one of them throws.
\<close>

definition loopEntry :: "'w connector \<Rightarrow> table \<Rightarrow> bool \<Rightarrow> 'w state \<Rightarrow> (int \<times> 'w state) option" where
  "loopEntry C t reset st =
     (case (if reset then empty_tbl C t st else (Inr (), st)) of
        (Inl ex, st0) \<Rightarrow> None
      | (Inr u, st0) \<Rightarrow>
          (case before C t (consoleLog (''fill:  '' @ t_name t) st0) of
             (Inl ex, st1) \<Rightarrow> None
           | (Inr u, st1) \<Rightarrow>
               (case invoke (CountLines (t_name t)) (countLines C t) st1 of
                  (Inl ex, st2) \<Rightarrow> None
                | (Inr currentNbRows, st2) \<Rightarrow> Some (currentNbRows, st2))))"

text \<open>
  The loop states a run passes through: \<open>reaches C R sch t maxL x y\<close> when the loop,
  started with row count, pools and state \<open>x\<close>, comes to the head of the loop with
  \<open>y\<close> after some passes that ended at the end of the body.
\<close>

inductive reaches ::
  "'w connector \<Rightarrow> 'w randomizer \<Rightarrow> schema \<Rightarrow> table \<Rightarrow> int
     \<Rightarrow> int \<times> pools \<times> 'w state \<Rightarrow> int \<times> pools \<times> 'w state \<Rightarrow> bool"
  for C R sch t maxL where
    start: "reaches C R sch t maxL x x"
  | pass: "reaches C R sch t maxL x (cur, fkv, st) \<Longrightarrow> cur < maxL \<Longrightarrow>
           batch C R sch t maxL cur fkv st = Continue cur' fkv' st' \<Longrightarrow>
           reaches C R sch t maxL x (cur', fkv', st')"

text \<open>The \<^verbatim>\<open>after\<close> statements of a table.\<close>

definition afterQueries :: "table \<Rightarrow> string list" where
  "afterQueries t = (case t_after t of None \<Rightarrow> [] | Some qs \<Rightarrow> qs)"

subsection \<open>Observing a run\<close>

definition isInsert :: "call \<Rightarrow> bool" where
  "isInsert c = (case c of Insert nm rows \<Rightarrow> True | _ \<Rightarrow> False)"

definition isFetch :: "call \<Rightarrow> bool" where
  "isFetch c = (case c of GetValuesForForeignKeys tn cn ft fc n u wh \<Rightarrow> True | _ \<Rightarrow> False)"

definition stepState :: "'w step \<Rightarrow> 'w state" where
  "stepState s = (case s of Continue n fkv st \<Rightarrow> st | Break st \<Rightarrow> st | Throw ex st \<Rightarrow> st)"

text \<open>
  \<open>served C t cs runRows key pool\<close>: \<open>pool\<close> is what the connector's
  \<^verbatim>\<open>getValuesForForeignKeys\<close> returned, in some world, for a foreign-key
  column of \<open>cs\<close> whose pool key is \<open>key\<close>, asked for \<open>runRows\<close> values.
\<close>

definition served ::
  "'w connector \<Rightarrow> table \<Rightarrow> column list \<Rightarrow> int \<Rightarrow> string \<Rightarrow> jsval list \<Rightarrow> bool" where
  "served C t cs runRows key pool =
     (\<exists>c fk w0 w1. c \<in> set cs \<and> c_foreignKey c = Some fk \<and> poolKey c fk = key
        \<and> fetch C t c fk runRows w0 = (Inr pool, w1))"

text \<open>
  The case labels of the \<^verbatim>\<open>switch\<close>: those of the string columns, and all
  but \<^verbatim>\<open>enum\<close>. \<open>uuidCase\<close> is the test of the string case,
  \<^verbatim>\<open>column.options.max >= 36 && column.options.unique\<close>.
\<close>

definition stringTags :: "string list" where
  "stringTags = [''varchar'', ''char'', ''binary'', ''varbinary'']"

definition nullableTags :: "string list" where
  "nullableTags =
     [''bit'', ''tinyint'', ''bool'', ''boolean'', ''smallint'', ''mediumint'', ''int'',
      ''integer'', ''bigint'', ''decimal'', ''dec'', ''float'', ''double'', ''date'',
      ''datetime'', ''timestamp'', ''time'', ''year'', ''varchar'', ''char'', ''binary'',
      ''varbinary'', ''tinyblob'', ''text'', ''mediumtext'', ''longtext'', ''blob'',
      ''mediumblob'', ''longblob'', ''set'']"

definition uuidCase :: "column \<Rightarrow> bool" where
  "uuidCase c =
     (c_generator c \<in> set stringTags \<and> 36 \<le> o_max (c_options c) \<and> o_unique (c_options c))"

text \<open>Every insert of the calls was given between 1 and 1000 rows.\<close>

definition capped :: "call list \<Rightarrow> bool" where
  "capped cs = (\<forall>nm rows. Insert nm rows \<in> set cs \<longrightarrow> 1 \<le> length rows \<and> length rows \<le> 1000)"

subsection \<open>A sample connector, randomizer and tables\<close>

text \<open>
  A connector over a world that is the row count of the one table, after the
  \<^verbatim>\<open>TestConnector\<close> of the tests: \<^verbatim>\<open>countLines\<close> reads the
  count, \<^verbatim>\<open>insert\<close> reports \<open>accept rows w\<close> rows as inserted, where
  \<open>w\<close> is the count before (the test connector reports \<^verbatim>\<open>rows.length\<close>),
  and every foreign key is served from \<open>pool\<close>.
\<close>

definition countingDb :: "jsval list \<Rightarrow> (row list \<Rightarrow> int \<Rightarrow> int) \<Rightarrow> int connector" where
  "countingDb pool accept =
     \<lparr> countLines = (\<lambda>t w. (Inr w, w)),
       emptyTable = (\<lambda>t w. (Inr (), 0)),
       executeRawQuery = (\<lambda>q w. (Inr (), w)),
       getValuesForForeignKeys = (\<lambda>tn cn ft fc n u wh w. (Inr (take (nat n) pool), w)),
       insert_rows = (\<lambda>tn rows w. (Inr (accept rows w), w + accept rows w)) \<rparr>"

text \<open>
  A sink that takes every row, one that takes none, and one that takes rows until the
  table holds \<open>cap\<close> of them.
\<close>

definition allRows :: "row list \<Rightarrow> int \<Rightarrow> int" where
  "allRows rows w = int (length rows)"

definition noRows :: "row list \<Rightarrow> int \<Rightarrow> int" where
  "noRows rows w = 0"

definition upTo :: "int \<Rightarrow> row list \<Rightarrow> int \<Rightarrow> int" where
  "upTo cap rows w = min (int (length rows)) (max 0 (cap - w))"

text \<open>
  A randomizer without chance: every draw of \<^verbatim>\<open>Math.random\<close> is \<open>r\<close>.
  Its \<open>floorTimes\<close> takes the product exactly.
\<close>

definition fixedRandomizer :: "rat \<Rightarrow> int randomizer" where
  "fixedRandomizer r =
     \<lparr> randomInt = (\<lambda>lo hi w. (hi, w)),
       randomBit = (\<lambda>n w. (JNum 1, w)),
       randomFloat = (\<lambda>lo hi w. (JNum (of_int lo), w)),
       randomDate = (\<lambda>lo hi w. (JNum (of_int lo), w)),
       randomString = (\<lambda>n w. (replicate (nat n) CHR ''x'', w)),
       mathRandom = (\<lambda>w. (r, w)),
       uuid4 = (\<lambda>w. (''110ec58a-a0f2-4ac4-8393-c866d813b8d1'', w)),
       dateNow = (\<lambda>w. (1600000000000, w)),
       dateEpoch = 0,
       floorTimes = (\<lambda>x n. \<lfloor>x * of_int n\<rfloor>) \<rparr>"

definition start :: "int \<Rightarrow> int state" where
  "start n = \<lparr> world = n, calls = [], console = [] \<rparr>"

definition plainOptions :: options where
  "plainOptions =
     \<lparr> o_nullable = False, o_unique = False, o_autoIncrement = False, o_min = 0, o_max = 10 \<rparr>"

definition sampleSchema :: schema where
  "sampleSchema = \<lparr> s_maxCharLength = 8, s_values = Map.empty \<rparr>"

text \<open>
  The table of the spec's scenario: an auto-increment \<^verbatim>\<open>id\<close> and a
  \<^verbatim>\<open>varchar(10) name\<close>, with \<^verbatim>\<open>maxLines = 5\<close>.
\<close>

definition users :: table where
  "users =
     \<lparr> t_name = ''users'', t_lines = None,
       t_columns =
         [\<lparr> c_name = ''id'', c_generator = ''int'',
            c_options = plainOptions\<lparr>o_autoIncrement := True\<rparr>,
            c_foreignKey = None, c_values = None \<rparr>,
          \<lparr> c_name = ''name'', c_generator = ''varchar'', c_options = plainOptions,
            c_foreignKey = None, c_values = None \<rparr>],
       t_before = None, t_after = Some [''ANALYZE TABLE users''],
       t_maxLines = Some 5, t_addLines = None \<rparr>"

text \<open>
  \<open>users\<close> with \<^verbatim>\<open>addLines = 0\<close> beside
  \<^verbatim>\<open>maxLines = 10\<close>.
\<close>

definition zeroAdd :: table where
  "zeroAdd = users\<lparr> t_addLines := Some 0, t_maxLines := Some 10 \<rparr>"

text \<open>A table that supplies the deprecated \<^verbatim>\<open>lines\<close> and nothing else.\<close>

definition legacy :: table where
  "legacy = users\<lparr> t_lines := Some 5, t_maxLines := None \<rparr>"

text \<open>A table with a required foreign key to \<open>users\<close>.\<close>

definition orders :: table where
  "orders =
     \<lparr> t_name = ''orders'', t_lines = None,
       t_columns =
         [\<lparr> c_name = ''user_id'', c_generator = ''int'', c_options = plainOptions,
            c_foreignKey = Some \<lparr> fk_table = ''users'', fk_column = ''id'', fk_where = None \<rparr>,
            c_values = None \<rparr>],
       t_before = None, t_after = Some [''ANALYZE TABLE orders''],
       t_maxLines = Some 3, t_addLines = None \<rparr>"

text \<open>
  \<open>orders\<close> with its foreign key on an auto-increment column, and the values
  that the referenced column holds.
\<close>

definition ordersAuto :: table where
  "ordersAuto =
     orders\<lparr> t_columns :=
       [\<lparr> c_name = ''user_id'', c_generator = ''int'',
          c_options = plainOptions\<lparr>o_autoIncrement := True\<rparr>,
          c_foreignKey = Some \<lparr> fk_table = ''users'', fk_column = ''id'', fk_where = None \<rparr>,
          c_values = None \<rparr>] \<rparr>"

definition userPool :: "jsval list" where
  "userPool = [JNum 7, JNum 8]"

text \<open>The same column, required.\<close>

definition notNull :: "column \<Rightarrow> column" where
  "notNull c = c\<lparr> c_options := (c_options c)\<lparr> o_nullable := False \<rparr> \<rparr>"

text \<open>Two nullable string columns: one unique and 36 wide, one not unique.\<close>

definition uuidColumn :: column where
  "uuidColumn =
     \<lparr> c_name = ''token'', c_generator = ''varchar'',
       c_options = \<lparr> o_nullable = True, o_unique = True, o_autoIncrement = False,
                     o_min = 0, o_max = 36 \<rparr>,
       c_foreignKey = None, c_values = None \<rparr>"

definition noteColumn :: column where
  "noteColumn =
     \<lparr> c_name = ''note'', c_generator = ''varchar'',
       c_options = \<lparr> o_nullable = True, o_unique = False, o_autoIncrement = False,
                     o_min = 2, o_max = 36 \<rparr>,
       c_foreignKey = None, c_values = None \<rparr>"

text \<open>The row that the sample randomizer makes for \<open>users\<close>.\<close>

definition nameRow :: row where
  "nameRow = [''name'' \<mapsto> JStr ''xxxxxxxx'']"

section \<open>Properties\<close>

subsection \<open>The loop, unfolded\<close>

lemma batchLoop_exit:
  "\<not> cur < maxL \<Longrightarrow> batchLoop C R sch t maxL cur fkv st = Some (Inr cur, st)"
  by (subst batchLoop.simps) simp

lemma batchLoop_body:
  "cur < maxL \<Longrightarrow>
   batchLoop C R sch t maxL cur fkv st =
     (case batch C R sch t maxL cur fkv st of
        Continue cur' fkv' st' \<Rightarrow> batchLoop C R sch t maxL cur' fkv' st'
      | Break st' \<Rightarrow> Some (Inr cur, st')
      | Throw ex st' \<Rightarrow> Some (Inl ex, st'))"
  by (subst batchLoop.simps) simp

subsection \<open>The calls of the hooks\<close>

lemma runQueries_calls:
  "\<exists>k \<le> length qs.
     calls (snd (runQueries C qs st)) = calls st @ map ExecuteRawQuery (take k qs)
     \<and> (k = length qs \<or> (\<exists>ex. fst (runQueries C qs st) = Inl ex))"
proof (induction qs arbitrary: st)
  case Nil
  then show ?case by simp
next
  case (Cons q qs)
  obtain r w where f: "executeRawQuery C q (world st) = (r, w)"
    by (cases "executeRawQuery C q (world st)")
  show ?case
  proof (cases r)
    case (Inl ex)
    then show ?thesis using f
      by (intro exI[of _ 1]) (simp add: invoke_def)
  next
    case (Inr u)
    let ?st' = "st\<lparr>world := w, calls := calls st @ [ExecuteRawQuery q]\<rparr>"
    from Cons.IH[of ?st'] obtain k where k: "k \<le> length qs"
      "calls (snd (runQueries C qs ?st')) = calls ?st' @ map ExecuteRawQuery (take k qs)"
      "k = length qs \<or> (\<exists>ex. fst (runQueries C qs ?st') = Inl ex)" by blast
    show ?thesis using f Inr k
      by (intro exI[of _ "Suc k"]) (auto simp: invoke_def)
  qed
qed

lemma runQueries_console: "console (snd (runQueries C qs st)) = console st"
  by (induction qs arbitrary: st) (auto simp: invoke_def split: prod.splits sum.splits)

lemma runQueries_no_insert:
  "filter isInsert (calls (snd (runQueries C qs st))) = filter isInsert (calls st)"
proof -
  obtain k where "calls (snd (runQueries C qs st)) = calls st @ map ExecuteRawQuery (take k qs)"
    using runQueries_calls[of qs C st] by blast
  then show ?thesis by (simp add: filter_empty_conv isInsert_def)
qed

lemma runQueries_no_fetch:
  "filter isFetch (calls (snd (runQueries C qs st))) = filter isFetch (calls st)"
proof -
  obtain k where "calls (snd (runQueries C qs st)) = calls st @ map ExecuteRawQuery (take k qs)"
    using runQueries_calls[of qs C st] by blast
  then show ?thesis by (simp add: filter_empty_conv isFetch_def)
qed

lemma after_no_insert:
  "filter isInsert (calls (snd (after C t st))) = filter isInsert (calls st)"
  by (simp add: after_def runQueries_no_insert split: option.splits)

lemma after_no_fetch:
  "filter isFetch (calls (snd (after C t st))) = filter isFetch (calls st)"
  by (simp add: after_def runQueries_no_fetch split: option.splits)

lemma after_console: "console (snd (after C t st)) = console st"
  by (simp add: after_def runQueries_console split: option.splits)

lemma before_no_insert:
  "filter isInsert (calls (snd (before C t st))) = filter isInsert (calls st)"
  by (simp add: before_def runQueries_no_insert split: option.splits)

lemma before_no_fetch:
  "filter isFetch (calls (snd (before C t st))) = filter isFetch (calls st)"
  by (simp add: before_def runQueries_no_fetch split: option.splits)

subsection \<open>A table at its target\<close>

text \<open>
  C7. A \<^verbatim>\<open>fill\<close> with \<^verbatim>\<open>reset = false\<close> of a table whose row count,
  as \<^verbatim>\<open>generateData\<close> reads it, is at or above the target computed from it
  runs no batch: after the \<^verbatim>\<open>before\<close> statements it calls
  \<^verbatim>\<open>countLines\<close> and goes on to the \<^verbatim>\<open>after\<close> statements, and
  the run makes no call of \<^verbatim>\<open>insert\<close> and none of
  \<^verbatim>\<open>getValuesForForeignKeys\<close>.
\<close>

theorem fill_at_target_no_batch:
  assumes "before C t (consoleLog (''fill:  '' @ t_name t) st) = (Inr (), st1)"
    and "countLines C t (world st1) = (Inr n, w)"
    and "computeTarget t n \<le> n"
  shows "fill C R sch t False st =
           Some (after C t (st1\<lparr>world := w, calls := calls st1 @ [CountLines (t_name t)]\<rparr>))
         \<and> (\<exists>r sf. fill C R sch t False st = Some (r, sf)
              \<and> filter isInsert (calls sf) = filter isInsert (calls st)
              \<and> filter isFetch (calls sf) = filter isFetch (calls st))"
proof -
  let ?s2 = "st1\<lparr>world := w, calls := calls st1 @ [CountLines (t_name t)]\<rparr>"
  have g: "generateData C R sch t st1 = Some (Inr n, ?s2)"
    using assms(2,3) by (simp add: generateData_def invoke_def batchLoop_exit)
  have f: "fill C R sch t False st = Some (after C t ?s2)"
    using assms(1) g by (simp add: fill_def)
  have i1: "filter isInsert (calls st1) = filter isInsert (calls st)"
    using before_no_insert[of C t "consoleLog (''fill:  '' @ t_name t) st"] assms(1)
    by (simp add: consoleLog_def)
  have f1: "filter isFetch (calls st1) = filter isFetch (calls st)"
    using before_no_fetch[of C t "consoleLog (''fill:  '' @ t_name t) st"] assms(1)
    by (simp add: consoleLog_def)
  have i2: "filter isInsert (calls (snd (after C t ?s2))) = filter isInsert (calls st)"
    by (simp add: after_no_insert isInsert_def i1)
  have f2: "filter isFetch (calls (snd (after C t ?s2))) = filter isFetch (calls st)"
    by (simp add: after_no_fetch isFetch_def f1)
  show ?thesis using f i2 f2 by (cases "after C t ?s2") auto
qed

theorem fill_at_target_no_batch_witness:
  "before (countingDb [] allRows) users (consoleLog (''fill:  '' @ t_name users) (start 7))
     = (Inr (), consoleLog (''fill:  '' @ t_name users) (start 7))
   \<and> countLines (countingDb [] allRows) users 7 = (Inr 7, 7)
   \<and> computeTarget users 7 \<le> 7
   \<and> fill (countingDb [] allRows) (fixedRandomizer 0) sampleSchema users False (start 7) =
       Some (Inr (),
         \<lparr> world = 7, calls = [CountLines ''users'', ExecuteRawQuery ''ANALYZE TABLE users''],
           console = [Log ''fill:  users''] \<rparr>)"
proof -
  let ?C = "countingDb [] allRows"
  let ?s = "consoleLog (''fill:  '' @ t_name users) (start 7)"
  have b: "before ?C users ?s = (Inr (), ?s)"
    by (simp add: before_def users_def)
  have c: "countLines ?C users (world ?s) = (Inr 7, 7)"
    by (simp add: countingDb_def consoleLog_def start_def)
  have t: "computeTarget users 7 \<le> 7"
    by (simp add: computeTarget_def truthy_def users_def)
  show ?thesis
    using fill_at_target_no_batch[OF b c t, of "fixedRandomizer 0" sampleSchema] b t
    by (simp add: countingDb_def consoleLog_def start_def after_def users_def invoke_def)
qed

subsection \<open>The deprecated field\<close>

text \<open>
  C5, as amended. The generator never reads \<^verbatim>\<open>lines\<close>: the target does not
  depend on it, and a table that sets neither \<^verbatim>\<open>maxLines\<close> nor
  \<^verbatim>\<open>addLines\<close> has the target \<open>0\<close>, whatever its \<^verbatim>\<open>lines\<close>.
\<close>

theorem lines_ignored:
  "computeTarget (t\<lparr>t_lines := l\<rparr>) n = computeTarget t n
   \<and> (t_maxLines t = None \<and> t_addLines t = None \<longrightarrow> computeTarget t n = 0)"
  by (simp add: computeTarget_def truthy_def)

theorem lines_ignored_witness:
  "t_maxLines legacy = None \<and> t_addLines legacy = None \<and> t_lines legacy = Some 5
   \<and> computeTarget legacy 0 = 0
   \<and> computeTarget (legacy\<lparr>t_lines := Some 9\<rparr>) 0 = computeTarget legacy 0"
proof -
  have h: "t_maxLines legacy = None \<and> t_addLines legacy = None \<and> t_lines legacy = Some 5"
    by (simp add: legacy_def users_def)
  show ?thesis
    using h lines_ignored[where t = legacy and l = "Some 9" and n = 0] by simp
qed

text \<open>
  The claim as stated fails: the table \<open>legacy\<close> supplies only
  \<^verbatim>\<open>lines = 5\<close>; on an empty table its target is \<open>0\<close>, not \<open>5\<close>, and
  \<^verbatim>\<open>generateData\<close> only counts the rows.
\<close>

theorem lines_only_counterexample:
  "t_lines legacy = Some 5 \<and> t_maxLines legacy = None \<and> t_addLines legacy = None
   \<and> computeTarget legacy 0 \<noteq> 5
   \<and> generateData (countingDb [] allRows) (fixedRandomizer 0) sampleSchema legacy (start 0) =
       Some (Inr 0, \<lparr> world = 0, calls = [CountLines ''users''], console = [] \<rparr>)"
  by (simp add: legacy_def users_def computeTarget_def truthy_def generateData_def invoke_def
      countingDb_def start_def batchLoop_exit)

subsection \<open>One pass through the loop\<close>

lemma getForeignKeyValues_effect:
  "getForeignKeyValues C t cs fkv n st = (r, fkv', st') \<Longrightarrow>
   console st' = console st \<and> (\<exists>new. calls st' = calls st @ new \<and> (\<forall>c \<in> set new. isFetch c))"
proof (induction cs arbitrary: fkv st)
  case Nil
  then show ?case by simp
next
  case (Cons c cs)
  show ?case
  proof (cases "c_foreignKey c")
    case None
    with Cons show ?thesis by simp
  next
    case (Some fk)
    obtain a w where f: "fetch C t c fk n (world st) = (a, w)" by (cases "fetch C t c fk n (world st)")
    let ?s = "st\<lparr>world := w, calls := calls st @ [fetchCall t c fk n]\<rparr>"
    have fc: "isFetch (fetchCall t c fk n)" by (simp add: isFetch_def fetchCall_def)
    show ?thesis
    proof (cases "\<exists>vals. a = Inr vals \<and> \<not> (length vals = 0 \<and> \<not> o_nullable (c_options c))")
      case True
      then obtain vals where v: "a = Inr vals" "\<not> (length vals = 0 \<and> \<not> o_nullable (c_options c))" by blast
      have "getForeignKeyValues C t cs (fkv(poolKey c fk \<mapsto> vals)) n ?s = (r, fkv', st')"
        using Cons.prems Some f v by (auto simp: invoke_def split: if_splits)
      from Cons.IH[OF this] obtain new where "console st' = console st" "calls st' = calls ?s @ new" "\<forall>c \<in> set new. isFetch c"
        by auto
      then show ?thesis using fc by (intro conjI exI[of _ "fetchCall t c fk n # new"]) auto
    next
      case False
      then have "st' = ?s" using Cons.prems Some f
        by (cases a) (auto simp: invoke_def split: if_splits)
      then show ?thesis using fc by (intro conjI exI[of _ "[fetchCall t c fk n]"]) auto
    qed
  qed
qed

lemma genRows_length:
  "genRows R sch fkv cols idxs acc w = (Inr rows, w') \<Longrightarrow> length rows = length acc + length idxs"
  by (induction idxs arbitrary: acc w) (auto split: prod.splits sum.splits)

lemma batch_cases:
  fixes C R sch t maxL cur fkv st
  defines "n \<equiv> min 1000 (maxL - cur)"
  obtains
    (Failed) ex fkv1 st1 where
      "getForeignKeyValues C t (t_columns t) fkv n st = (Some ex, fkv1, st1)"
      "batch C R sch t maxL cur fkv st = Break (consoleWarn (message ex) st1)"
  | (SynthesisThrows) fkv1 st1 ex w2 where
      "getForeignKeyValues C t (t_columns t) fkv n st = (None, fkv1, st1)"
      "genRows R sch fkv1 (t_columns t) [0..<nat n] [] (world st1) = (Inl ex, w2)"
      "batch C R sch t maxL cur fkv st = Throw ex (st1\<lparr>world := w2\<rparr>)"
  | (InsertThrows) fkv1 st1 rows w2 ex w3 where
      "getForeignKeyValues C t (t_columns t) fkv n st = (None, fkv1, st1)"
      "genRows R sch fkv1 (t_columns t) [0..<nat n] [] (world st1) = (Inr rows, w2)"
      "insert_rows C (t_name t) rows w2 = (Inl ex, w3)"
      "batch C R sch t maxL cur fkv st =
         Throw ex (st1\<lparr>world := w3, calls := calls st1 @ [Insert (t_name t) rows]\<rparr>)"
  | (Stalled) fkv1 st1 rows w2 w3 where
      "getForeignKeyValues C t (t_columns t) fkv n st = (None, fkv1, st1)"
      "genRows R sch fkv1 (t_columns t) [0..<nat n] [] (world st1) = (Inr rows, w2)"
      "insert_rows C (t_name t) rows w2 = (Inr 0, w3)"
      "batch C R sch t maxL cur fkv st =
         Break (consoleWarn (stalled t)
                  (st1\<lparr>world := w3, calls := calls st1 @ [Insert (t_name t) rows]\<rparr>))"
  | (Inserted) fkv1 st1 rows w2 k w3 where
      "getForeignKeyValues C t (t_columns t) fkv n st = (None, fkv1, st1)"
      "genRows R sch fkv1 (t_columns t) [0..<nat n] [] (world st1) = (Inr rows, w2)"
      "insert_rows C (t_name t) rows w2 = (Inr k, w3)" "k \<noteq> 0"
      "batch C R sch t maxL cur fkv st =
         Continue (cur + k) fkv1
           (consoleLog (showInt (cur + k) @ '' / '' @ showOptional (t_maxLines t))
              (st1\<lparr>world := w3, calls := calls st1 @ [Insert (t_name t) rows]\<rparr>))"
proof -
  obtain e fkv1 st1 where g: "getForeignKeyValues C t (t_columns t) fkv n st = (e, fkv1, st1)"
    by (cases "getForeignKeyValues C t (t_columns t) fkv n st") auto
  show thesis
  proof (cases e)
    case (Some ex)
    then show thesis using g Failed by (simp add: batch_def n_def Let_def)
  next
    case None
    obtain rr w2 where r: "genRows R sch fkv1 (t_columns t) [0..<nat n] [] (world st1) = (rr, w2)"
      by (cases "genRows R sch fkv1 (t_columns t) [0..<nat n] [] (world st1)")
    show thesis
    proof (cases rr)
      case (Inl ex)
      then show thesis using g None r SynthesisThrows by (simp add: batch_def n_def Let_def)
    next
      case (Inr rows)
      obtain a w3 where i: "insert_rows C (t_name t) rows w2 = (a, w3)"
        by (cases "insert_rows C (t_name t) rows w2")
      show thesis
      proof (cases a)
        case (Inl ex)
        then show thesis using g None r Inr i InsertThrows
          by (simp add: batch_def n_def Let_def invoke_def)
      next
        case (Inr k)
        show thesis
        proof (cases "k = 0")
          case True
          then show thesis using g None r \<open>rr = Inr rows\<close> i Inr Stalled
            by (simp add: batch_def n_def Let_def invoke_def)
        next
          case False
          then show thesis using g None r \<open>rr = Inr rows\<close> i Inr Inserted
            by (simp add: batch_def n_def Let_def invoke_def)
        qed
      qed
    qed
  qed
qed


lemma batchLoop_induct [consumes 1, case_names Exit Break Throw Continue]:
  assumes run: "batchLoop C R sch t maxL cur fkv st = Some y"
    and exit: "\<And>cur fkv st. \<not> cur < maxL \<Longrightarrow> P cur fkv st (Inr cur, st)"
    and brk: "\<And>cur fkv st st'. cur < maxL \<Longrightarrow>
                batch C R sch t maxL cur fkv st = Break st' \<Longrightarrow> P cur fkv st (Inr cur, st')"
    and thr: "\<And>cur fkv st ex st'. cur < maxL \<Longrightarrow>
                batch C R sch t maxL cur fkv st = Throw ex st' \<Longrightarrow> P cur fkv st (Inl ex, st')"
    and cont: "\<And>cur fkv st cur' fkv' st' y. cur < maxL \<Longrightarrow>
                batch C R sch t maxL cur fkv st = Continue cur' fkv' st' \<Longrightarrow>
                batchLoop C R sch t maxL cur' fkv' st' = Some y \<Longrightarrow>
                P cur' fkv' st' y \<Longrightarrow> P cur fkv st y"
  shows "P cur fkv st y"
proof -
  let ?Q = "\<lambda>C' R' sch' t' maxL' cur fkv st y.
       C' = C \<longrightarrow> R' = R \<longrightarrow> sch' = sch \<longrightarrow> t' = t \<longrightarrow> maxL' = maxL \<longrightarrow>
       batchLoop C R sch t maxL cur fkv st = Some y \<longrightarrow> P cur fkv st y"
  have "?Q C R sch t maxL cur fkv st y"
  proof (rule batchLoop.raw_induct[where P = ?Q, OF _ run], intro impI, goal_cases)
    case (1 f C' R' sch' t' maxL' cur fkv st y)
    note eqs = 1(3-7)
    note body = 1(2)[unfolded eqs]
    note ih = 1(1)
    note run' = 1(8)
    show ?case
    proof (cases "cur < maxL")
      case False
      with body have "y = (Inr cur, st)" by simp
      with exit[OF False] show ?thesis by simp
    next
      case True
      show ?thesis
      proof (cases "batch C R sch t maxL cur fkv st")
        case (Continue cur' fkv' st')
        have r: "batchLoop C R sch t maxL cur' fkv' st' = Some y"
          using run' True Continue by (simp add: batchLoop_body)
        have f: "f C R sch t maxL cur' fkv' st' = Some y"
          using body True Continue by simp
        have "P cur' fkv' st' y" using ih[OF f] r by simp
        from cont[OF True Continue r this] show ?thesis .
      next
        case (Break st')
        with body True have "y = (Inr cur, st')" by simp
        with brk[OF True Break] show ?thesis by simp
      next
        case (Throw ex st')
        with body True have "y = (Inl ex, st')" by simp
        with thr[OF True Throw] show ?thesis by simp
      qed
    qed
  qed
  with run show ?thesis by simp
qed

lemma batch_Continue_bound:
  assumes bound: "\<And>nm rows w k w'. insert_rows C nm rows w = (Inr k, w') \<Longrightarrow> k \<le> int (length rows)"
    and lt: "cur < maxL"
    and c: "batch C R sch t maxL cur fkv st = Continue cur' fkv' st'"
  shows "cur' \<le> maxL"
proof (cases rule: batch_cases[of C t fkv maxL cur st R sch])
  case (Inserted fkv1 st1 rows w2 k w3)
  have "length rows = nat (min 1000 (maxL - cur))"
    using genRows_length[OF Inserted(2)] by simp
  moreover have "k \<le> int (length rows)" using bound[OF Inserted(3)] .
  moreover have "cur' = cur + k" using c Inserted(5) by simp
  ultimately show ?thesis using lt by simp
qed (use c in simp_all)

lemma batchLoop_bounded:
  assumes bound: "\<And>nm rows w k w'. insert_rows C nm rows w = (Inr k, w') \<Longrightarrow> k \<le> int (length rows)"
    and run: "batchLoop C R sch t maxL cur fkv st = Some (Inr final, st')"
  shows "final \<le> max cur maxL"
proof -
  have "\<forall>final st'. y = (Inr final, st') \<longrightarrow> final \<le> max cur maxL"
    if "batchLoop C R sch t maxL cur fkv st = Some y" for y
    using that
  proof (induction rule: batchLoop_induct)
    case (Continue cur fkv st cur' fkv' st' y)
    have "cur' \<le> maxL" using batch_Continue_bound[OF bound Continue(1,2)] by simp
    with Continue show ?case by auto
  qed auto
  with run show ?thesis by blast
qed

lemma batchLoop_terminates:
  assumes nonneg: "\<And>nm rows w k w'. insert_rows C nm rows w = (Inr k, w') \<Longrightarrow> 0 \<le> k"
  shows "\<exists>y. batchLoop C R sch t maxL cur fkv st = Some y"
proof (induction "nat (maxL - cur)" arbitrary: cur fkv st rule: less_induct)
  case less
  show ?case
  proof (cases "cur < maxL")
    case False
    then show ?thesis by (simp add: batchLoop_exit)
  next
    case True
    show ?thesis
    proof (cases rule: batch_cases[of C t fkv maxL cur st R sch])
      case (Inserted fkv1 st1 rows w2 k w3)
      have "0 < k" using nonneg[OF Inserted(3)] Inserted(4) by simp
      then have "nat (maxL - (cur + k)) < nat (maxL - cur)" using True by simp
      from less[OF this] show ?thesis using True Inserted(5) by (simp add: batchLoop_body)
    qed (use True in \<open>simp_all add: batchLoop_body\<close>)
  qed
qed

subsection \<open>The row count and the target\<close>

lemma computeTarget_cases:
  "(t_addLines t = Some a \<and> a \<noteq> 0 \<and> t_maxLines t = Some m \<and> m \<noteq> 0 \<longrightarrow>
      computeTarget t n = min (n + a) m)
   \<and> (t_addLines t = Some a \<and> a \<noteq> 0 \<and> (t_maxLines t = None \<or> t_maxLines t = Some 0) \<longrightarrow>
        computeTarget t n = n + a)
   \<and> ((t_addLines t = None \<or> t_addLines t = Some 0) \<and> t_maxLines t = Some m \<longrightarrow>
        computeTarget t n = m)
   \<and> ((t_addLines t = None \<or> t_addLines t = Some 0) \<and> t_maxLines t = None \<longrightarrow>
        computeTarget t n = 0)"
  by (auto simp: computeTarget_def truthy_def)

lemma showInt_5: "showInt 5 = ''5''"
  by code_simp

lemma showInt_10: "showInt 10 = ''10''"
  by code_simp

text \<open>
  C1, as amended. When the connector's \<^verbatim>\<open>insert\<close> never reports more rows
  than it was given, the row count that \<^verbatim>\<open>generateData\<close> holds when it
  returns is at most the larger of the count it read at its start and the target; so it
  is at most the target when the table started at or below it. A field counts as set when
  it is present and not \<open>0\<close>: the source tests \<^verbatim>\<open>table.addLines\<close> and
  \<^verbatim>\<open>table.maxLines\<close> for a truthy number, and \<open>0\<close> is also the target
  it starts from when nothing is set. The target is the count plus
  \<^verbatim>\<open>addLines\<close>, clamped to \<^verbatim>\<open>maxLines\<close>, when both are set;
  the count plus \<^verbatim>\<open>addLines\<close> when only that is set (the other absent or
  \<open>0\<close>); \<^verbatim>\<open>maxLines\<close> when \<^verbatim>\<open>addLines\<close> is absent or
  \<open>0\<close>; and \<open>0\<close> when neither is set. The four cases cover every table.
\<close>

theorem final_count_bounded:
  assumes bound: "\<And>nm rows w k w'. insert_rows C nm rows w = (Inr k, w') \<Longrightarrow> k \<le> int (length rows)"
    and count: "countLines C t (world st) = (Inr n, w)"
    and run: "generateData C R sch t st = Some (Inr final, st')"
  shows "final \<le> max n (computeTarget t n)
         \<and> (n \<le> computeTarget t n \<longrightarrow> final \<le> computeTarget t n)
         \<and> (\<forall>a m. t_addLines t = Some a \<and> a \<noteq> 0 \<and> t_maxLines t = Some m \<and> m \<noteq> 0 \<longrightarrow>
               computeTarget t n = min (n + a) m)
         \<and> (\<forall>a. t_addLines t = Some a \<and> a \<noteq> 0
                  \<and> (t_maxLines t = None \<or> t_maxLines t = Some 0) \<longrightarrow>
               computeTarget t n = n + a)
         \<and> (\<forall>m. (t_addLines t = None \<or> t_addLines t = Some 0) \<and> t_maxLines t = Some m \<longrightarrow>
               computeTarget t n = m)
         \<and> ((t_addLines t = None \<or> t_addLines t = Some 0) \<and> t_maxLines t = None \<longrightarrow>
               computeTarget t n = 0)"
proof -
  let ?s = "st\<lparr>world := w, calls := calls st @ [CountLines (t_name t)]\<rparr>"
  have "batchLoop C R sch t (computeTarget t n) n Map.empty ?s = Some (Inr final, st')"
    using run count by (simp add: generateData_def invoke_def)
  from batchLoop_bounded[OF bound this]
  have "final \<le> max n (computeTarget t n)" by simp
  then show ?thesis using computeTarget_cases[of t _ _ n] by auto
qed

theorem final_count_bounded_witness:
  "countLines (countingDb [] allRows) users (world (start 3)) = (Inr 3, 3)
   \<and> generateData (countingDb [] allRows) (fixedRandomizer 0) sampleSchema users (start 3) =
       Some (Inr 5,
         \<lparr> world = 5, calls = [CountLines ''users'', Insert ''users'' [nameRow, nameRow]],
           console = [Log ''5 / 5''] \<rparr>)
   \<and> (5::int) \<le> max 3 (computeTarget users 3)
   \<and> t_addLines users = None \<and> t_maxLines users = Some 5 \<and> computeTarget users 3 = 5
   \<and> countLines (countingDb [] allRows) zeroAdd (world (start 3)) = (Inr 3, 3)
   \<and> generateData (countingDb [] allRows) (fixedRandomizer 0) sampleSchema zeroAdd (start 3) =
       Some (Inr 10,
         \<lparr> world = 10, calls = [CountLines ''users'', Insert ''users'' (replicate 7 nameRow)],
           console = [Log ''10 / 10''] \<rparr>)
   \<and> t_addLines zeroAdd = Some 0 \<and> t_maxLines zeroAdd = Some 10
   \<and> computeTarget zeroAdd 3 = 10 \<and> (10::int) \<le> computeTarget zeroAdd 3"
proof -
  let ?C = "countingDb [] allRows" and ?R = "fixedRandomizer 0"
  have c: "countLines ?C users (world (start 3)) = (Inr 3, 3)"
    by (simp add: countingDb_def start_def)
  have g: "generateData ?C ?R sampleSchema users (start 3) =
       Some (Inr 5,
         \<lparr> world = 5, calls = [CountLines ''users'', Insert ''users'' [nameRow, nameRow]],
           console = [Log ''5 / 5''] \<rparr>)"
    by (simp add: generateData_def invoke_def countingDb_def start_def computeTarget_def truthy_def
        users_def batchLoop_body batchLoop_exit batch_def upt_rec genColumn_def hasValues_def
        plainOptions_def generated_def fixedRandomizer_def sampleSchema_def orNull_def allRows_def
        consoleLog_def showInt_5 showOptional_def eval_nat_numeral nameRow_def)
  have u: "t_addLines users = None \<and> t_maxLines users = Some 5"
    by (simp add: users_def)
  have c': "countLines ?C zeroAdd (world (start 3)) = (Inr 3, 3)"
    by (simp add: countingDb_def start_def)
  have g': "generateData ?C ?R sampleSchema zeroAdd (start 3) =
       Some (Inr 10,
         \<lparr> world = 10, calls = [CountLines ''users'', Insert ''users'' (replicate 7 nameRow)],
           console = [Log ''10 / 10''] \<rparr>)"
    by (simp add: generateData_def invoke_def countingDb_def start_def computeTarget_def truthy_def
        zeroAdd_def users_def batchLoop_body batchLoop_exit batch_def upt_rec genColumn_def
        hasValues_def plainOptions_def generated_def fixedRandomizer_def sampleSchema_def
        orNull_def allRows_def consoleLog_def showInt_10 showOptional_def eval_nat_numeral
        nameRow_def)
  have z: "t_addLines zeroAdd = Some 0 \<and> t_maxLines zeroAdd = Some 10"
    by (simp add: zeroAdd_def users_def)
  have b: "k \<le> int (length rows)" if "insert_rows ?C nm rows w = (Inr k, w')"
    for nm rows w k w'
    using that by (auto simp: countingDb_def allRows_def)
  have r: "5 \<le> max 3 (computeTarget users 3)"
    by (rule final_count_bounded[OF _ c g, THEN conjunct1]) (rule b)
  have tu: "computeTarget users 3 = 5"
    using final_count_bounded[OF _ c g] b u by blast
  have tz: "computeTarget zeroAdd 3 = 10"
    using final_count_bounded[OF _ c' g'] b z by blast
  have rz: "10 \<le> computeTarget zeroAdd 3"
    using final_count_bounded[OF _ c' g'] b tz by simp
  show ?thesis using c g r u tu c' g' z tz rz by simp
qed

text \<open>
  The claim as stated fails in two ways. A table above its target keeps its rows:
  \<open>users\<close> has \<^verbatim>\<open>maxLines = 5\<close> only; with \<open>10\<close> rows the target is
  \<open>5\<close>, no batch runs and the row count stays \<open>10\<close>. And a field that is \<open>0\<close>
  does not count as set: \<open>zeroAdd\<close> has \<^verbatim>\<open>addLines = 0\<close> and
  \<^verbatim>\<open>maxLines = 10\<close>; with \<open>3\<close> rows the claim's target is
  \<open>min (3 + 0) 10 = 3\<close>, while \<^verbatim>\<open>generateData\<close> fills the table to
  \<open>10\<close> rows.
\<close>

theorem final_count_counterexample:
  "generateData (countingDb [] allRows) (fixedRandomizer 0) sampleSchema users (start 10) =
       Some (Inr 10, \<lparr> world = 10, calls = [CountLines ''users''], console = [] \<rparr>)
   \<and> t_maxLines users = Some 5 \<and> t_addLines users = None
   \<and> computeTarget users 10 = 5 \<and> \<not> (10::int) \<le> 5
   \<and> generateData (countingDb [] allRows) (fixedRandomizer 0) sampleSchema zeroAdd (start 3) =
       Some (Inr 10,
         \<lparr> world = 10, calls = [CountLines ''users'', Insert ''users'' (replicate 7 nameRow)],
           console = [Log ''10 / 10''] \<rparr>)
   \<and> t_addLines zeroAdd = Some 0 \<and> t_maxLines zeroAdd = Some 10
   \<and> \<not> (10::int) \<le> min (3 + 0) 10"
  by (simp add: generateData_def invoke_def countingDb_def start_def computeTarget_def truthy_def
        zeroAdd_def users_def batchLoop_body batchLoop_exit batch_def upt_rec genColumn_def
        hasValues_def plainOptions_def generated_def fixedRandomizer_def sampleSchema_def
        orNull_def allRows_def consoleLog_def showInt_10 showOptional_def eval_nat_numeral
        nameRow_def)


subsection \<open>The shape of a fill\<close>

lemma empty_tbl_effect:
  "empty_tbl C t st = (r, st') \<Longrightarrow>
     calls st' = calls st @ [EmptyTable (t_name t)]
     \<and> console st' = console st @ [Log (''empty:  '' @ t_name t)]"
  by (auto simp: empty_tbl_def invoke_def consoleLog_def split: prod.splits)

lemma before_calls:
  "\<exists>k. calls (snd (before C t st)) = calls st @ map ExecuteRawQuery k"
  using runQueries_calls[of _ C st]
  by (auto simp: before_def split: option.splits)

lemma before_console: "console (snd (before C t st)) = console st"
  by (simp add: before_def runQueries_console split: option.splits)

lemma after_calls:
  "\<exists>k. calls (snd (after C t st)) = calls st @ map ExecuteRawQuery k"
  using runQueries_calls[of _ C st]
  by (auto simp: after_def split: option.splits)

text \<open>How a fill that returns is made up.\<close>

lemma fill_shape [consumes 1, case_names Early Loop]:
  assumes "fill C R sch t reset st = Some (r, sf)"
  obtains
    (Early) pre where "calls sf = calls st @ pre" "\<forall>c \<in> set pre. \<not> isInsert c \<and> \<not> isFetch c"
      "\<forall>m. Warn m \<in> set (console sf) \<longrightarrow> Warn m \<in> set (console st)"
  | (Loop) pre s1 n x s2 post where
      "calls s1 = calls st @ pre" "\<forall>c \<in> set pre. \<not> isInsert c \<and> \<not> isFetch c"
      "\<forall>m. Warn m \<in> set (console s1) \<longrightarrow> Warn m \<in> set (console st)"
      "batchLoop C R sch t (computeTarget t n) n Map.empty s1 = Some (x, s2)"
      "calls sf = calls s2 @ post" "\<forall>c \<in> set post. \<not> isInsert c \<and> \<not> isFetch c"
      "console sf = console s2"
proof -
  define s0 where "s0 = (if reset then empty_tbl C t st else (Inr (), st))"
  obtain r0 st0 where e: "s0 = (r0, st0)" by (cases s0)
  have c0: "\<exists>pre. calls st0 = calls st @ pre \<and> (\<forall>c \<in> set pre. \<not> isInsert c \<and> \<not> isFetch c)"
    using e empty_tbl_effect[of C t st r0 st0]
    by (auto simp: s0_def isInsert_def isFetch_def split: if_splits)
  have w0: "\<forall>m. Warn m \<in> set (console st0) \<longrightarrow> Warn m \<in> set (console st)"
    using e empty_tbl_effect[of C t st r0 st0] by (auto simp: s0_def split: if_splits)
  show thesis
  proof (cases r0)
    case (Inl ex)
    then have "sf = st0" using assms e by (simp add: fill_def s0_def[symmetric])
    then show thesis using c0 w0 Early by blast
  next
    case (Inr u)
    let ?l = "consoleLog (''fill:  '' @ t_name t) st0"
    obtain r1 st1 where b: "before C t ?l = (r1, st1)" by (cases "before C t ?l")
    have c1: "\<exists>pre. calls st1 = calls st @ pre \<and> (\<forall>c \<in> set pre. \<not> isInsert c \<and> \<not> isFetch c)"
    proof -
      from c0 obtain p0 where p0: "calls st0 = calls st @ p0" "\<forall>c \<in> set p0. \<not> isInsert c \<and> \<not> isFetch c"
        by blast
      obtain k where "calls st1 = calls ?l @ map ExecuteRawQuery k"
        using before_calls[of C t ?l] b by auto
      then have "calls st1 = calls st @ (p0 @ map ExecuteRawQuery k)"
        using p0 by (simp add: consoleLog_def)
      moreover have "\<forall>c \<in> set (p0 @ map ExecuteRawQuery k). \<not> isInsert c \<and> \<not> isFetch c"
        using p0 by (auto simp: isInsert_def isFetch_def)
      ultimately show ?thesis by blast
    qed
    have w1: "\<forall>m. Warn m \<in> set (console st1) \<longrightarrow> Warn m \<in> set (console st)"
      using before_console[of C t ?l] b w0 by (auto simp: consoleLog_def)
    show thesis
    proof (cases r1)
      case (Inl ex)
      then have "sf = st1" using assms e Inr b by (simp add: fill_def s0_def[symmetric])
      then show thesis using c1 w1 Early by blast
    next
      case (Inr u1)
      obtain rc wc where cl: "countLines C t (world st1) = (rc, wc)"
        by (cases "countLines C t (world st1)")
      let ?s1 = "st1\<lparr>world := wc, calls := calls st1 @ [CountLines (t_name t)]\<rparr>"
      have c2: "\<exists>pre. calls ?s1 = calls st @ pre \<and> (\<forall>c \<in> set pre. \<not> isInsert c \<and> \<not> isFetch c)"
      proof -
        from c1 obtain p1 where p1: "calls st1 = calls st @ p1" "\<forall>c \<in> set p1. \<not> isInsert c \<and> \<not> isFetch c"
          by blast
        have "calls ?s1 = calls st @ (p1 @ [CountLines (t_name t)])" using p1 by simp
        moreover have "\<forall>c \<in> set (p1 @ [CountLines (t_name t)]). \<not> isInsert c \<and> \<not> isFetch c"
          using p1 by (auto simp: isInsert_def isFetch_def)
        ultimately show ?thesis by blast
      qed
      have w2: "\<forall>m. Warn m \<in> set (console ?s1) \<longrightarrow> Warn m \<in> set (console st)"
        using w1 by simp
      show thesis
      proof (cases rc)
        case (Inl ex)
        then have "sf = ?s1" using assms e \<open>r0 = Inr u\<close> b Inr cl
          by (simp add: fill_def s0_def[symmetric] generateData_def invoke_def)
        then show thesis using c2 w2 Early by blast
      next
        case (Inr n)
        have g: "generateData C R sch t st1 = batchLoop C R sch t (computeTarget t n) n Map.empty ?s1"
          using cl Inr by (simp add: generateData_def invoke_def)
        obtain x s2 where l: "batchLoop C R sch t (computeTarget t n) n Map.empty ?s1 = Some (x, s2)"
          using assms e \<open>r0 = Inr u\<close> b \<open>r1 = Inr u1\<close> g
          by (cases "batchLoop C R sch t (computeTarget t n) n Map.empty ?s1")
             (auto simp: fill_def s0_def[symmetric])
        have "\<exists>post. calls sf = calls s2 @ post \<and> (\<forall>c \<in> set post. \<not> isInsert c \<and> \<not> isFetch c)
                 \<and> console sf = console s2"
        proof (cases x)
          case (Inl ex)
          then have "sf = s2" using assms e \<open>r0 = Inr u\<close> b \<open>r1 = Inr u1\<close> g l
            by (simp add: fill_def s0_def[symmetric])
          then show ?thesis by (intro exI[of _ "[]"]) simp
        next
          case (Inr m)
          then have a: "(r, sf) = after C t s2" using assms e \<open>r0 = Inr u\<close> b \<open>r1 = Inr u1\<close> g l
            by (simp add: fill_def s0_def[symmetric])
          obtain k where "calls (snd (after C t s2)) = calls s2 @ map ExecuteRawQuery k"
            using after_calls[of C t s2] by blast
          moreover have "console (snd (after C t s2)) = console s2" by (rule after_console)
          ultimately show ?thesis using a[symmetric]
            by (intro exI[of _ "map ExecuteRawQuery k"]) (auto simp: isInsert_def isFetch_def)
        qed
        then show thesis using Loop[OF _ _ w2 l] c2 by blast
      qed
    qed
  qed
qed

lemma fill_terminates_if:
  assumes "\<And>n s. \<exists>y. batchLoop C R sch t (computeTarget t n) n Map.empty s = Some y"
  shows "\<exists>y. fill C R sch t reset st = Some y"
proof -
  have g: "\<exists>y. generateData C R sch t s = Some y" for s
    using assms by (auto simp: generateData_def split: prod.splits sum.splits)
  obtain r0 st0 where e: "(if reset then empty_tbl C t st else (Inr (), st)) = (r0, st0)"
    by (cases "if reset then empty_tbl C t st else (Inr (), st)")
  obtain r1 st1 where b: "before C t (consoleLog (''fill:  '' @ t_name t) st0) = (r1, st1)"
    by (cases "before C t (consoleLog (''fill:  '' @ t_name t) st0)")
  obtain y where y: "generateData C R sch t st1 = Some y" using g by blast
  show ?thesis
    unfolding fill_def e using b y
    by (cases r0; cases r1; cases y; cases "fst y") auto
qed

subsection \<open>The size of a batch\<close>

lemmas run_defs =
  generateData_def invoke_def countingDb_def start_def computeTarget_def truthy_def
  users_def batchLoop_body batchLoop_exit batch_def upt_rec genColumn_def hasValues_def
  plainOptions_def generated_def fixedRandomizer_def sampleSchema_def orNull_def allRows_def
  noRows_def consoleLog_def consoleWarn_def showOptional_def eval_nat_numeral
  fill_def before_def after_def empty_tbl_def stalled_def

lemma isFetch_not_isInsert: "isFetch c \<Longrightarrow> \<not> isInsert c"
  by (cases c) (simp_all add: isFetch_def isInsert_def)

text \<open>The calls of one pass: the fetches, then at most one insert, of the batch's size.\<close>

lemma batch_calls:
  assumes "cur < maxL"
  shows "\<exists>fs ins. calls (stepState (batch C R sch t maxL cur fkv st)) = calls st @ fs @ ins
           \<and> (\<forall>c \<in> set fs. isFetch c)
           \<and> (ins = [] \<or> (\<exists>rows. ins = [Insert (t_name t) rows]
                 \<and> int (length rows) = min 1000 (maxL - cur)))"
proof -
  let ?n = "min 1000 (maxL - cur)"
  have len: "int (length rows) = ?n"
    if "genRows R sch fkv1 (t_columns t) [0..<nat ?n] [] w = (Inr rows, w2)" for fkv1 w rows w2
    using genRows_length[OF that] assms by simp
  show ?thesis
  proof (cases rule: batch_cases[of C t fkv maxL cur st R sch])
    case (Failed ex fkv1 st1)
    from getForeignKeyValues_effect[OF Failed(1)] obtain fs where
      "calls st1 = calls st @ fs" "\<forall>c \<in> set fs. isFetch c" by blast
    then show ?thesis using Failed(2)
      by (intro exI[of _ fs] exI[of _ "[]"]) (simp add: stepState_def consoleWarn_def)
  next
    case (SynthesisThrows fkv1 st1 ex w2)
    from getForeignKeyValues_effect[OF SynthesisThrows(1)] obtain fs where
      "calls st1 = calls st @ fs" "\<forall>c \<in> set fs. isFetch c" by blast
    then show ?thesis using SynthesisThrows(3)
      by (intro exI[of _ fs] exI[of _ "[]"]) (simp add: stepState_def)
  next
    case (InsertThrows fkv1 st1 rows w2 ex w3)
    from getForeignKeyValues_effect[OF InsertThrows(1)] obtain fs where
      "calls st1 = calls st @ fs" "\<forall>c \<in> set fs. isFetch c" by blast
    then show ?thesis using InsertThrows(4) len[OF InsertThrows(2)]
      by (intro exI[of _ fs] exI[of _ "[Insert (t_name t) rows]"]) (simp add: stepState_def)
  next
    case (Stalled fkv1 st1 rows w2 w3)
    from getForeignKeyValues_effect[OF Stalled(1)] obtain fs where
      "calls st1 = calls st @ fs" "\<forall>c \<in> set fs. isFetch c" by blast
    then show ?thesis using Stalled(4) len[OF Stalled(2)]
      by (intro exI[of _ fs] exI[of _ "[Insert (t_name t) rows]"])
         (simp add: stepState_def consoleWarn_def)
  next
    case (Inserted fkv1 st1 rows w2 k w3)
    from getForeignKeyValues_effect[OF Inserted(1)] obtain fs where
      "calls st1 = calls st @ fs" "\<forall>c \<in> set fs. isFetch c" by blast
    then show ?thesis using Inserted(5) len[OF Inserted(2)]
      by (intro exI[of _ fs] exI[of _ "[Insert (t_name t) rows]"])
         (simp add: stepState_def consoleLog_def)
  qed
qed

lemma capped_append: "capped (xs @ ys) = (capped xs \<and> capped ys)"
  by (auto simp: capped_def)

lemma capped_no_insert: "\<forall>c \<in> set cs. \<not> isInsert c \<Longrightarrow> capped cs"
  by (auto simp: capped_def isInsert_def)

lemma batch_capped:
  assumes "cur < maxL"
  shows "\<exists>new. calls (stepState (batch C R sch t maxL cur fkv st)) = calls st @ new \<and> capped new"
proof -
  from batch_calls[OF assms, of C R sch t fkv st] obtain fs ins where
    c: "calls (stepState (batch C R sch t maxL cur fkv st)) = calls st @ fs @ ins"
    and f: "\<forall>c \<in> set fs. isFetch c"
    and i: "ins = [] \<or> (\<exists>rows. ins = [Insert (t_name t) rows]
                 \<and> int (length rows) = min 1000 (maxL - cur))" by blast
  have "capped fs" using f by (auto intro!: capped_no_insert dest: isFetch_not_isInsert)
  moreover have "capped ins" using i assms by (auto simp: capped_def)
  ultimately show ?thesis using c by (intro exI[of _ "fs @ ins"]) (simp add: capped_append)
qed

lemma batchLoop_capped:
  assumes "batchLoop C R sch t maxL cur fkv st = Some y"
  shows "\<exists>new. calls (snd y) = calls st @ new \<and> capped new"
  using assms
proof (induction rule: batchLoop_induct)
  case (Exit cur fkv st)
  then show ?case by (simp add: capped_def)
next
  case (Break cur fkv st st')
  then show ?case using batch_capped[OF Break(1), of C R sch t fkv st] by (simp add: stepState_def)
next
  case (Throw cur fkv st ex st')
  then show ?case using batch_capped[OF Throw(1), of C R sch t fkv st] by (simp add: stepState_def)
next
  case (Continue cur fkv st cur' fkv' st' y)
  from batch_capped[OF Continue(1), of C R sch t fkv st] Continue(2)
  obtain n1 where n1: "calls st' = calls st @ n1" "capped n1" by (auto simp: stepState_def)
  from Continue(4) obtain n2 where n2: "calls (snd y) = calls st' @ n2" "capped n2" by blast
  show ?case using n1 n2 by (intro exI[of _ "n1 @ n2"]) (simp add: capped_append)
qed

text \<open>
  C6. In a pass through the loop body (\<open>cur < maxL\<close>) the connector is called for the
  foreign keys and then at most once for \<^verbatim>\<open>insert\<close>, with exactly
  \<open>min 1000 (maxL - cur)\<close> rows; and in a whole \<^verbatim>\<open>fill\<close> that
  returns, every \<^verbatim>\<open>insert\<close> was given at least one and at most 1000 rows.
\<close>

theorem insert_batch_size:
  "(cur < maxL \<longrightarrow>
      (\<exists>fs ins. calls (stepState (batch C R sch t maxL cur fkv st)) = calls st @ fs @ ins
           \<and> (\<forall>c \<in> set fs. isFetch c)
           \<and> (ins = [] \<or> (\<exists>rows. ins = [Insert (t_name t) rows]
                 \<and> int (length rows) = min 1000 (maxL - cur)))))
   \<and> (\<forall>r sf. fill C R sch t reset st0 = Some (r, sf) \<longrightarrow>
        (\<exists>new. calls sf = calls st0 @ new
           \<and> (\<forall>nm rows. Insert nm rows \<in> set new \<longrightarrow> 1 \<le> length rows \<and> length rows \<le> 1000)))"
proof (intro conjI impI allI)
  assume "cur < maxL"
  then show "\<exists>fs ins. calls (stepState (batch C R sch t maxL cur fkv st)) = calls st @ fs @ ins
           \<and> (\<forall>c \<in> set fs. isFetch c)
           \<and> (ins = [] \<or> (\<exists>rows. ins = [Insert (t_name t) rows]
                 \<and> int (length rows) = min 1000 (maxL - cur)))"
    by (rule batch_calls)
next
  fix r sf
  assume f: "fill C R sch t reset st0 = Some (r, sf)"
  from f have "\<exists>new. calls sf = calls st0 @ new \<and> capped new"
  proof (cases rule: fill_shape)
    case (Early pre)
    then show ?thesis by (intro exI[of _ pre]) (simp add: capped_no_insert)
  next
    case (Loop pre s1 n x s2 post)
    from batchLoop_capped[OF Loop(4)] obtain new where
      n: "calls s2 = calls s1 @ new" "capped new" by auto
    show ?thesis using Loop(1,2,5,6) n
      by (intro exI[of _ "pre @ new @ post"]) (simp add: capped_append capped_no_insert)
  qed
  then show "\<exists>new. calls sf = calls st0 @ new
           \<and> (\<forall>nm rows. Insert nm rows \<in> set new \<longrightarrow> 1 \<le> length rows \<and> length rows \<le> 1000)"
    by (simp add: capped_def)
qed

theorem insert_batch_size_witness:
  "(3::int) < 5
   \<and> calls (stepState (batch (countingDb [] allRows) (fixedRandomizer 0) sampleSchema users 5 3
        Map.empty (start 3))) = [Insert ''users'' [nameRow, nameRow]]
   \<and> int (length [nameRow, nameRow]) = min 1000 (5 - 3)
   \<and> fill (countingDb [] allRows) (fixedRandomizer 0) sampleSchema users False (start 3) =
       Some (Inr (),
         \<lparr> world = 5,
           calls = [CountLines ''users'', Insert ''users'' [nameRow, nameRow],
                    ExecuteRawQuery ''ANALYZE TABLE users''],
           console = [Log ''fill:  users'', Log ''5 / 5''] \<rparr>)"
proof -
  let ?A = "countingDb [] allRows" and ?R = "fixedRandomizer 0"
  have lt: "(3::int) < 5" by simp
  have c: "batch ?A ?R sampleSchema users 5 3 Map.empty (start 3) =
       Continue 5 Map.empty
         \<lparr> world = 5, calls = [Insert ''users'' [nameRow, nameRow]], console = [Log ''5 / 5''] \<rparr>"
    by (simp add: run_defs nameRow_def showInt_5)
  have f: "fill ?A ?R sampleSchema users False (start 3) =
       Some (Inr (),
         \<lparr> world = 5,
           calls = [CountLines ''users'', Insert ''users'' [nameRow, nameRow],
                    ExecuteRawQuery ''ANALYZE TABLE users''],
           console = [Log ''fill:  users'', Log ''5 / 5''] \<rparr>)"
    by (simp add: run_defs nameRow_def showInt_5)
  note size = insert_batch_size[of 3 5 ?A ?R sampleSchema users Map.empty "start 3" False "start 3"]
  from size lt obtain fs ins where
    b: "calls (stepState (batch ?A ?R sampleSchema users 5 3 Map.empty (start 3))) =
          calls (start 3) @ fs @ ins"
       "ins = [] \<or> (\<exists>rows. ins = [Insert (t_name users) rows]
           \<and> int (length rows) = min 1000 (5 - 3))"
    by blast
  have "calls (stepState (batch ?A ?R sampleSchema users 5 3 Map.empty (start 3))) =
          [Insert ''users'' [nameRow, nameRow]]"
    using c by (simp add: stepState_def)
  with b have "int (length [nameRow, nameRow]) = min 1000 (5 - 3)"
    by (auto simp: start_def append_eq_Cons_conv)
  then show ?thesis using lt c f by (simp add: stepState_def)
qed

subsection \<open>Termination and stalls\<close>

lemma batchLoop_zero:
  assumes zero: "\<And>nm rows w. \<exists>w'. insert_rows C nm rows w = (Inr 0, w')"
  shows "\<exists>x s2 new. batchLoop C R sch t maxL cur fkv st = Some (x, s2)
           \<and> calls s2 = calls st @ new
           \<and> length (filter isInsert new) \<le> 1
           \<and> (filter isInsert new \<noteq> [] \<longrightarrow> Warn (stalled t) \<in> set (console s2))"
proof (cases "cur < maxL")
  case False
  then show ?thesis by (simp add: batchLoop_exit)
next
  case True
  have nf: "filter isInsert fs = []" if "\<forall>c \<in> set fs. isFetch c" for fs
    using that by (auto simp: filter_empty_conv dest: isFetch_not_isInsert)
  show ?thesis
  proof (cases rule: batch_cases[of C t fkv maxL cur st R sch])
    case (Failed ex fkv1 st1)
    from getForeignKeyValues_effect[OF Failed(1)] obtain fs where
      "calls st1 = calls st @ fs" "\<forall>c \<in> set fs. isFetch c" by blast
    then show ?thesis using True Failed(2) nf[of fs]
      by (simp add: batchLoop_body consoleWarn_def)
  next
    case (SynthesisThrows fkv1 st1 ex w2)
    from getForeignKeyValues_effect[OF SynthesisThrows(1)] obtain fs where
      "calls st1 = calls st @ fs" "\<forall>c \<in> set fs. isFetch c" by blast
    then show ?thesis using True SynthesisThrows(3) nf[of fs]
      by (simp add: batchLoop_body)
  next
    case (InsertThrows fkv1 st1 rows w2 ex w3)
    then show ?thesis using zero[of "t_name t" rows w2] by simp
  next
    case (Stalled fkv1 st1 rows w2 w3)
    from getForeignKeyValues_effect[OF Stalled(1)] obtain fs where
      "calls st1 = calls st @ fs" "\<forall>c \<in> set fs. isFetch c" by blast
    then show ?thesis using True Stalled(4) nf[of fs]
      by (simp add: batchLoop_body consoleWarn_def isInsert_def)
  next
    case (Inserted fkv1 st1 rows w2 k w3)
    then show ?thesis using zero[of "t_name t" rows w2] by simp
  qed
qed

text \<open>
  C2. With a connector whose \<^verbatim>\<open>insert\<close> never returns a negative count,
  \<^verbatim>\<open>generateData\<close> and \<^verbatim>\<open>fill\<close> terminate. A pass through
  the loop body that reaches its end has strictly increased the row count; a pass whose \<^verbatim>\<open>insert\<close> returns
  \<open>0\<close> logs the warning and breaks. When \<^verbatim>\<open>insert\<close> always returns
  \<open>0\<close>, the run makes at most one insert, and if it makes one, the warning is on
  the console.
\<close>

theorem fill_terminates:
  assumes nn: "\<forall>nm rows w k w'. insert_rows C nm rows w = (Inr k, w') \<longrightarrow> 0 \<le> k"
  shows "(\<exists>y. generateData C R sch t st = Some y)
    \<and> (\<exists>y. fill C R sch t reset st = Some y)
    \<and> (\<forall>maxL cur fkv s cur' fkv' s'.
          batch C R sch t maxL cur fkv s = Continue cur' fkv' s' \<longrightarrow> cur < cur')
    \<and> (\<forall>maxL cur fkv s fkv1 s1 rows w2 w3.
          getForeignKeyValues C t (t_columns t) fkv (min 1000 (maxL - cur)) s = (None, fkv1, s1)
          \<and> genRows R sch fkv1 (t_columns t) [0..<nat (min 1000 (maxL - cur))] [] (world s1)
              = (Inr rows, w2)
          \<and> insert_rows C (t_name t) rows w2 = (Inr 0, w3) \<longrightarrow>
          batch C R sch t maxL cur fkv s =
            Break (consoleWarn (stalled t)
                     (s1\<lparr>world := w3, calls := calls s1 @ [Insert (t_name t) rows]\<rparr>)))
    \<and> ((\<forall>nm rows w. \<exists>w'. insert_rows C nm rows w = (Inr 0, w')) \<longrightarrow>
          (\<exists>r sf. fill C R sch t reset st = Some (r, sf)
             \<and> length (filter isInsert (calls sf)) \<le> length (filter isInsert (calls st)) + 1
             \<and> (length (filter isInsert (calls st)) < length (filter isInsert (calls sf)) \<longrightarrow>
                  Warn (stalled t) \<in> set (console sf))))"
proof -
  have nonneg: "0 \<le> k" if "insert_rows C nm rows w = (Inr k, w')" for nm rows w k w'
    using nn that by blast
  have loop: "\<exists>y. batchLoop C R sch t maxL cur fkv s = Some y" for maxL cur fkv s
    by (rule batchLoop_terminates) (rule nonneg)
  have halts: "\<exists>y. fill C R sch t reset st = Some y"
    by (rule fill_terminates_if) (rule loop)
  show ?thesis
  proof (intro conjI allI impI)
  show "\<exists>y. generateData C R sch t st = Some y"
    using loop by (auto simp: generateData_def split: prod.splits sum.splits)
next
  show "\<exists>y. fill C R sch t reset st = Some y" by (rule halts)
next
  fix maxL cur fkv s cur' fkv' s'
  assume c: "batch C R sch t maxL cur fkv s = Continue cur' fkv' s'"
  show "cur < cur'"
  proof (cases rule: batch_cases[of C t fkv maxL cur s R sch])
    case (Inserted fkv1 st1 rows w2 k w3)
    then show ?thesis using c nonneg[OF Inserted(3)] by simp
  qed (use c in simp_all)
next
  fix maxL cur fkv s fkv1 s1 rows w2 w3
  assume "getForeignKeyValues C t (t_columns t) fkv (min 1000 (maxL - cur)) s = (None, fkv1, s1)
          \<and> genRows R sch fkv1 (t_columns t) [0..<nat (min 1000 (maxL - cur))] [] (world s1)
              = (Inr rows, w2)
          \<and> insert_rows C (t_name t) rows w2 = (Inr 0, w3)"
  then show "batch C R sch t maxL cur fkv s =
            Break (consoleWarn (stalled t)
                     (s1\<lparr>world := w3, calls := calls s1 @ [Insert (t_name t) rows]\<rparr>))"
    by (simp add: batch_def invoke_def Let_def)
next
  assume zero: "\<forall>nm rows w. \<exists>w'. insert_rows C nm rows w = (Inr 0, w')"
  obtain y where "fill C R sch t reset st = Some y"
    using halts by blast
  then obtain r sf where f: "fill C R sch t reset st = Some (r, sf)" by (cases y) auto
  have ni: "filter isInsert cs = []" if "\<forall>c \<in> set cs. \<not> isInsert c \<and> \<not> isFetch c" for cs
    using that by (auto simp: filter_empty_conv)
  from f have "length (filter isInsert (calls sf)) \<le> length (filter isInsert (calls st)) + 1
             \<and> (length (filter isInsert (calls st)) < length (filter isInsert (calls sf)) \<longrightarrow>
                  Warn (stalled t) \<in> set (console sf))"
  proof (cases rule: fill_shape)
    case (Early pre)
    then show ?thesis using ni[of pre] by simp
  next
    case (Loop pre s1 n x s2 post)
    from batchLoop_zero[of C R sch t "computeTarget t n" n Map.empty s1] zero Loop(4)
    obtain new where new: "calls s2 = calls s1 @ new" "length (filter isInsert new) \<le> 1"
      "filter isInsert new \<noteq> [] \<longrightarrow> Warn (stalled t) \<in> set (console s2)" by auto
    have "filter isInsert (calls sf) = filter isInsert (calls st) @ filter isInsert new"
      using Loop(1,2,5,6) new(1) ni[of pre] ni[of post] by simp
    then show ?thesis using new(2,3) Loop(7) by auto
  qed
  with f show "\<exists>r sf. fill C R sch t reset st = Some (r, sf)
             \<and> length (filter isInsert (calls sf)) \<le> length (filter isInsert (calls st)) + 1
             \<and> (length (filter isInsert (calls st)) < length (filter isInsert (calls sf)) \<longrightarrow>
                  Warn (stalled t) \<in> set (console sf))" by blast
qed
qed

theorem fill_terminates_witness:
  "fill (countingDb [] noRows) (fixedRandomizer 0) sampleSchema users False (start 3) =
     Some (Inr (),
       \<lparr> world = 3,
         calls = [CountLines ''users'', Insert ''users'' [nameRow, nameRow],
                  ExecuteRawQuery ''ANALYZE TABLE users''],
         console = [Log ''fill:  users'', Warn (stalled users)] \<rparr>)
   \<and> batch (countingDb [] noRows) (fixedRandomizer 0) sampleSchema users 5 3 Map.empty (start 3) =
       Break \<lparr> world = 3, calls = [Insert ''users'' [nameRow, nameRow]],
               console = [Warn (stalled users)] \<rparr>
   \<and> batch (countingDb [] allRows) (fixedRandomizer 0) sampleSchema users 5 3 Map.empty (start 3) =
       Continue 5 Map.empty
         \<lparr> world = 5, calls = [Insert ''users'' [nameRow, nameRow]], console = [Log ''5 / 5''] \<rparr>
   \<and> (3::int) < 5"
proof -
  let ?Z = "countingDb [] noRows" and ?A = "countingDb [] allRows"
  let ?R = "fixedRandomizer 0"
  have nz: "\<forall>nm rows w k w'. insert_rows ?Z nm rows w = (Inr k, w') \<longrightarrow> 0 \<le> k"
    by (auto simp: countingDb_def noRows_def)
  have na: "\<forall>nm rows w k w'. insert_rows ?A nm rows w = (Inr k, w') \<longrightarrow> 0 \<le> k"
    by (auto simp: countingDb_def allRows_def)
  note tz = fill_terminates[where C = ?Z and R = ?R and sch = sampleSchema and t = users
      and reset = False and st = "start 3", OF nz]
  note ta = fill_terminates[where C = ?A and R = ?R and sch = sampleSchema and t = users
      and reset = False and st = "start 3", OF na]
  have f: "fill ?Z ?R sampleSchema users False (start 3) =
     Some (Inr (),
       \<lparr> world = 3,
         calls = [CountLines ''users'', Insert ''users'' [nameRow, nameRow],
                  ExecuteRawQuery ''ANALYZE TABLE users''],
         console = [Log ''fill:  users'', Warn (stalled users)] \<rparr>)"
    by (simp add: run_defs nameRow_def)
  have g: "getForeignKeyValues ?Z users (t_columns users) Map.empty (min 1000 (5 - 3)) (start 3)
             = (None, Map.empty, start 3)"
    by (simp add: users_def)
  have r: "genRows ?R sampleSchema Map.empty (t_columns users) [0..<nat (min 1000 (5 - 3))] []
             (world (start 3)) = (Inr [nameRow, nameRow], 3)"
    by (simp add: run_defs nameRow_def)
  have i: "insert_rows ?Z (t_name users) [nameRow, nameRow] 3 = (Inr 0, 3)"
    by (simp add: countingDb_def noRows_def)
  have b: "batch ?Z ?R sampleSchema users 5 3 Map.empty (start 3) =
       Break (consoleWarn (stalled users)
                ((start 3)\<lparr>world := 3, calls := calls (start 3) @ [Insert (t_name users) [nameRow, nameRow]]\<rparr>))"
    using tz g r i by blast
  have c: "batch ?A ?R sampleSchema users 5 3 Map.empty (start 3) =
       Continue 5 Map.empty
         \<lparr> world = 5, calls = [Insert ''users'' [nameRow, nameRow]], console = [Log ''5 / 5''] \<rparr>"
    by (simp add: run_defs nameRow_def showInt_5)
  have "(3::int) < 5" using ta c by blast
  then show ?thesis using f b c by (simp add: consoleWarn_def start_def users_def)
qed


subsection \<open>Aborted runs\<close>

lemma getForeignKeyValues_append:
  "getForeignKeyValues C t (pre @ post) fkv n st =
     (case getForeignKeyValues C t pre fkv n st of
        (Some ex, fkv1, st1) \<Rightarrow> (Some ex, fkv1, st1)
      | (None, fkv1, st1) \<Rightarrow> getForeignKeyValues C t post fkv1 n st1)"
  by (induction pre arbitrary: fkv st)
     (auto split: option.splits prod.splits sum.splits)

lemma reaches_batchLoop:
  "reaches C R sch t maxL x y \<Longrightarrow>
   batchLoop C R sch t maxL (fst x) (fst (snd x)) (snd (snd x)) =
   batchLoop C R sch t maxL (fst y) (fst (snd y)) (snd (snd y))"
  by (induction rule: reaches.induct) (simp_all add: batchLoop_body)

lemma fill_from_entry:
  assumes "loopEntry C t reset st = Some (n, s0)"
  shows "fill C R sch t reset st =
           (case batchLoop C R sch t (computeTarget t n) n Map.empty s0 of
              None \<Rightarrow> None
            | Some (Inl ex, s2) \<Rightarrow> Some (Inl ex, s2)
            | Some (Inr m, s2) \<Rightarrow> Some (after C t s2))"
  using assms
  by (auto simp: loopEntry_def fill_def generateData_def split: prod.splits sum.splits if_splits)

lemma fill_at_break:
  assumes entry: "loopEntry C t reset st = Some (n, s0)"
    and reach: "reaches C R sch t (computeTarget t n) (n, Map.empty, s0) (cur, fkv, s)"
    and lt: "cur < computeTarget t n"
    and brk: "batch C R sch t (computeTarget t n) cur fkv s = Break s'"
  shows "batchLoop C R sch t (computeTarget t n) cur fkv s = Some (Inr cur, s')"
    and "fill C R sch t reset st = Some (after C t s')"
proof -
  show l: "batchLoop C R sch t (computeTarget t n) cur fkv s = Some (Inr cur, s')"
    using lt brk by (simp add: batchLoop_body)
  have "batchLoop C R sch t (computeTarget t n) n Map.empty s0 = Some (Inr cur, s')"
    using reaches_batchLoop[OF reach] l by simp
  then show "fill C R sch t reset st = Some (after C t s')"
    by (simp add: fill_from_entry[OF entry])
qed

lemma runQueries_order:
  "\<exists>k \<le> length qs. (qs \<noteq> [] \<longrightarrow> 0 < k)
     \<and> calls (snd (runQueries C qs st)) = calls st @ map ExecuteRawQuery (take k qs)
     \<and> (k = length qs \<or> (\<exists>ex. fst (runQueries C qs st) = Inl ex))"
proof (induction qs arbitrary: st)
  case Nil
  then show ?case by simp
next
  case (Cons q qs)
  obtain r w where f: "executeRawQuery C q (world st) = (r, w)"
    by (cases "executeRawQuery C q (world st)")
  show ?case
  proof (cases r)
    case (Inl ex)
    then show ?thesis using f
      by (intro exI[of _ 1]) (simp add: invoke_def)
  next
    case (Inr u)
    let ?st' = "st\<lparr>world := w, calls := calls st @ [ExecuteRawQuery q]\<rparr>"
    from Cons.IH[of ?st'] obtain k where k: "k \<le> length qs"
      "calls (snd (runQueries C qs ?st')) = calls ?st' @ map ExecuteRawQuery (take k qs)"
      "k = length qs \<or> (\<exists>ex. fst (runQueries C qs ?st') = Inl ex)" by blast
    show ?thesis using f Inr k
      by (intro exI[of _ "Suc k"]) (auto simp: invoke_def)
  qed
qed

lemmas more_defs = loopEntry_def orders_def fetch_def fetchCall_def notEnough_def upTo_def
  afterQueries_def


text \<open>
  C10. Let \<^verbatim>\<open>fill\<close> enter the batch loop and let the loop come, after any
  number of complete passes, to a pass that ends in a \<^verbatim>\<open>break\<close> (the
  foreign-key fetch failed or the insert stalled). Then \<^verbatim>\<open>fill\<close> goes on
  with \<^verbatim>\<open>after\<close> on the state the pass left: the
  \<^verbatim>\<open>after\<close> statements are run in order, from the first, up to the end
  or to the first that throws.
\<close>

theorem abort_runs_after:
  assumes entry: "loopEntry C t reset st = Some (n, s0)"
    and reach: "reaches C R sch t (computeTarget t n) (n, Map.empty, s0) (cur, fkv, s)"
    and lt: "cur < computeTarget t n"
    and brk: "batch C R sch t (computeTarget t n) cur fkv s = Break s'"
  shows "fill C R sch t reset st = Some (after C t s')
    \<and> (\<exists>k \<le> length (afterQueries t). (afterQueries t \<noteq> [] \<longrightarrow> 0 < k)
          \<and> calls (snd (after C t s')) = calls s' @ map ExecuteRawQuery (take k (afterQueries t))
          \<and> (k = length (afterQueries t) \<or> (\<exists>ex. fst (after C t s') = Inl ex)))"
proof -
  have "after C t s' = runQueries C (afterQueries t) s'"
    by (simp add: after_def afterQueries_def split: option.splits)
  then show ?thesis
    using fill_at_break(2)[OF entry reach lt brk] runQueries_order[of "afterQueries t" C s']
    by simp
qed


lemma showInt_4: "showInt 4 = ''4''"
  by code_simp

theorem abort_runs_after_witness:
  "loopEntry (countingDb [] (upTo 4)) users False (start 3) =
     Some (3, \<lparr> world = 3, calls = [CountLines ''users''], console = [Log ''fill:  users''] \<rparr>)
   \<and> batch (countingDb [] (upTo 4)) (fixedRandomizer 0) sampleSchema users 5 3 Map.empty
        \<lparr> world = 3, calls = [CountLines ''users''], console = [Log ''fill:  users''] \<rparr> =
       Continue 4 Map.empty
         \<lparr> world = 4, calls = [CountLines ''users'', Insert ''users'' [nameRow, nameRow]],
           console = [Log ''fill:  users'', Log ''4 / 5''] \<rparr>
   \<and> batch (countingDb [] (upTo 4)) (fixedRandomizer 0) sampleSchema users 5 4 Map.empty
        \<lparr> world = 4, calls = [CountLines ''users'', Insert ''users'' [nameRow, nameRow]],
           console = [Log ''fill:  users'', Log ''4 / 5''] \<rparr> =
       Break
         \<lparr> world = 4,
           calls = [CountLines ''users'', Insert ''users'' [nameRow, nameRow],
                    Insert ''users'' [nameRow]],
           console = [Log ''fill:  users'', Log ''4 / 5'', Warn (stalled users)] \<rparr>
   \<and> fill (countingDb [] (upTo 4)) (fixedRandomizer 0) sampleSchema users False (start 3) =
       Some (Inr (),
         \<lparr> world = 4,
           calls = [CountLines ''users'', Insert ''users'' [nameRow, nameRow],
                    Insert ''users'' [nameRow], ExecuteRawQuery ''ANALYZE TABLE users''],
           console = [Log ''fill:  users'', Log ''4 / 5'', Warn (stalled users)] \<rparr>)"
proof -
  let ?C = "countingDb [] (upTo 4)" and ?R = "fixedRandomizer 0"
  let ?s0 = "\<lparr> world = 3::int, calls = [CountLines ''users''], console = [Log ''fill:  users''] \<rparr>"
  let ?s1 = "\<lparr> world = 4::int, calls = [CountLines ''users'', Insert ''users'' [nameRow, nameRow]],
           console = [Log ''fill:  users'', Log ''4 / 5''] \<rparr>"
  let ?s2 = "\<lparr> world = 4::int,
           calls = [CountLines ''users'', Insert ''users'' [nameRow, nameRow],
                    Insert ''users'' [nameRow]],
           console = [Log ''fill:  users'', Log ''4 / 5'', Warn (stalled users)] \<rparr>"
  have t: "computeTarget users 3 = 5" by (simp add: computeTarget_def truthy_def users_def)
  have e: "loopEntry ?C users False (start 3) = Some (3, ?s0)"
    by (simp add: run_defs more_defs)
  have b1: "batch ?C ?R sampleSchema users 5 3 Map.empty ?s0 = Continue 4 Map.empty ?s1"
    by (simp add: run_defs more_defs nameRow_def showInt_4 showInt_5)
  have b2: "batch ?C ?R sampleSchema users 5 4 Map.empty ?s1 = Break ?s2"
    by (simp add: run_defs more_defs nameRow_def)
  have r: "reaches ?C ?R sampleSchema users (computeTarget users 3) (3, Map.empty, ?s0)
             (4, Map.empty, ?s1)"
    unfolding t by (rule reaches.pass[OF reaches.start _ b1]) simp
  have lt: "(4::int) < computeTarget users 3" by (simp add: t)
  note inst = abort_runs_after[OF e r lt b2[folded t]]
  then have "fill ?C ?R sampleSchema users False (start 3) = Some (after ?C users ?s2)" by blast
  then show ?thesis using e b1 b2
    by (simp add: after_def users_def invoke_def countingDb_def)
qed

text \<open>
  C3. Let the loop come to a pass in which the foreign-key fetch, having served the columns
  \<open>pre\<close>, gets no value for the required (non-nullable) foreign-key column \<open>c\<close>.
  Then the pass ends in a \<^verbatim>\<open>break\<close>, in the state \<open>sAbort\<close>: the
  world is as the fetch left it (no value was drawn), the only new calls are fetches (no
  insert), and the error's message is a warning on the console. The loop returns the row
  count of the earlier batches, and \<^verbatim>\<open>fill\<close> goes on with the
  \<^verbatim>\<open>after\<close> statements instead of throwing.
\<close>

theorem starvation_aborts:
  assumes entry: "loopEntry C t reset st = Some (n, s0)"
    and reach: "reaches C R sch t (computeTarget t n) (n, Map.empty, s0) (cur, fkv, s)"
    and lt: "cur < computeTarget t n"
    and cols: "t_columns t = pre @ c # post"
    and pre: "getForeignKeyValues C t pre fkv (min 1000 (computeTarget t n - cur)) s
                = (None, fkv1, s1)"
    and fk: "c_foreignKey c = Some fk"
    and req: "\<not> o_nullable (c_options c)"
    and none: "fetch C t c fk (min 1000 (computeTarget t n - cur)) (world s1) = (Inr [], w)"
    and ab: "sAbort = s1\<lparr> world := w,
               calls := calls s1 @ [fetchCall t c fk (min 1000 (computeTarget t n - cur))],
               console := console s1 @ [Warn (notEnough fk)] \<rparr>"
  shows "batch C R sch t (computeTarget t n) cur fkv s = Break sAbort
    \<and> filter isInsert (calls sAbort) = filter isInsert (calls s)
    \<and> batchLoop C R sch t (computeTarget t n) cur fkv s = Some (Inr cur, sAbort)
    \<and> fill C R sch t reset st = Some (after C t sAbort)"
proof -
  let ?n = "min 1000 (computeTarget t n - cur)"
  have g: "getForeignKeyValues C t (t_columns t) fkv ?n s =
             (Some (Error (notEnough fk)), fkv1,
              s1\<lparr>world := w, calls := calls s1 @ [fetchCall t c fk ?n]\<rparr>)"
    using pre fk req none by (simp add: cols getForeignKeyValues_append invoke_def)
  have b: "batch C R sch t (computeTarget t n) cur fkv s = Break sAbort"
    using g by (simp add: batch_def Let_def consoleWarn_def ab)
  from getForeignKeyValues_effect[OF pre] obtain fs where
    fs: "calls s1 = calls s @ fs" "\<forall>c \<in> set fs. isFetch c" by blast
  have "filter isInsert fs = []"
    using fs(2) by (auto simp: filter_empty_conv dest: isFetch_not_isInsert)
  then have i: "filter isInsert (calls sAbort) = filter isInsert (calls s)"
    using fs(1) by (simp add: ab isInsert_def fetchCall_def)
  show ?thesis using b i fill_at_break[OF entry reach lt b] by simp
qed

theorem starvation_aborts_witness:
  "loopEntry (countingDb [] allRows) orders False (start 0) =
     Some (0, \<lparr> world = 0, calls = [CountLines ''orders''], console = [Log ''fill:  orders''] \<rparr>)
   \<and> (0::int) < computeTarget orders 0
   \<and> fill (countingDb [] allRows) (fixedRandomizer 0) sampleSchema orders False (start 0) =
       Some (Inr (),
         \<lparr> world = 0,
           calls = [CountLines ''orders'',
                    GetValuesForForeignKeys ''orders'' ''user_id'' ''users'' ''id'' 3 False None,
                    ExecuteRawQuery ''ANALYZE TABLE orders''],
           console = [Log ''fill:  orders'',
                      Warn ''[object Object]: Not enough values available for foreign key users.id''] \<rparr>)"
proof -
  let ?C = "countingDb [] allRows" and ?R = "fixedRandomizer 0"
  let ?s0 = "\<lparr> world = 0::int, calls = [CountLines ''orders''], console = [Log ''fill:  orders''] \<rparr>"
  let ?c = "\<lparr> c_name = ''user_id'', c_generator = ''int'', c_options = plainOptions,
            c_foreignKey = Some \<lparr> fk_table = ''users'', fk_column = ''id'', fk_where = None \<rparr>,
            c_values = None \<rparr>"
  let ?fk = "\<lparr> fk_table = ''users'', fk_column = ''id'', fk_where = None \<rparr>"
  have t: "computeTarget orders 0 = 3" by (simp add: computeTarget_def truthy_def orders_def)
  have e: "loopEntry ?C orders False (start 0) = Some (0, ?s0)"
    by (simp add: run_defs more_defs)
  have r: "reaches ?C ?R sampleSchema orders (computeTarget orders 0) (0, Map.empty, ?s0)
             (0, Map.empty, ?s0)"
    by (rule reaches.start)
  have lt: "(0::int) < computeTarget orders 0" by (simp add: t)
  have cols: "t_columns orders = [] @ ?c # []" by (simp add: orders_def)
  have p: "getForeignKeyValues ?C orders [] Map.empty (min 1000 (computeTarget orders 0 - 0)) ?s0
             = (None, Map.empty, ?s0)" by simp
  have fk: "c_foreignKey ?c = Some ?fk" by simp
  have req: "\<not> o_nullable (c_options ?c)" by (simp add: plainOptions_def)
  have none: "fetch ?C orders ?c ?fk (min 1000 (computeTarget orders 0 - 0)) (world ?s0) = (Inr [], 0)"
    by (simp add: fetch_def countingDb_def)
  note inst = starvation_aborts[OF e r lt cols p fk req none refl]
  then have "fill ?C ?R sampleSchema orders False (start 0) =
     Some (after ?C orders
       (?s0\<lparr> world := 0,
               calls := calls ?s0 @ [fetchCall orders ?c ?fk (min 1000 (computeTarget orders 0 - 0))],
               console := console ?s0 @ [Warn (notEnough ?fk)] \<rparr>))" by blast
  then have "fill ?C ?R sampleSchema orders False (start 0) =
     Some (after ?C orders
       (?s0\<lparr> world := 0,
               calls := calls ?s0 @ [fetchCall orders ?c ?fk 3],
               console := console ?s0 @ [Warn (notEnough ?fk)] \<rparr>))" by (simp add: t)
  then show ?thesis using e lt
    by (simp add: t after_def orders_def fetchCall_def notEnough_def invoke_def countingDb_def
          plainOptions_def)
qed


subsection \<open>Foreign-key values in the rows\<close>

lemma served_Cons: "served C t cs n k p \<Longrightarrow> served C t (c # cs) n k p"
  by (auto simp: served_def)

lemma getForeignKeyValues_keeps:
  "getForeignKeyValues C t cs fkv n st = (None, fkv', st') \<Longrightarrow> fkv k = Some p \<Longrightarrow>
   fkv' k = Some p \<or> (\<exists>pool. fkv' k = Some pool \<and> served C t cs n k pool)"
proof (induction cs arbitrary: fkv st p)
  case Nil
  then show ?case by simp
next
  case (Cons c cs)
  show ?case
  proof (cases "c_foreignKey c")
    case None
    then have rec: "getForeignKeyValues C t cs fkv n st = (None, fkv', st')"
      using Cons.prems(1) by simp
    from Cons.IH[OF rec Cons.prems(2)] show ?thesis using served_Cons by blast
  next
    case (Some fk)
    obtain a w where f: "fetch C t c fk n (world st) = (a, w)"
      by (cases "fetch C t c fk n (world st)")
    let ?s = "st\<lparr>world := w, calls := calls st @ [fetchCall t c fk n]\<rparr>"
    from Cons.prems(1) Some f obtain vals where v: "a = Inr vals"
      and rec: "getForeignKeyValues C t cs (fkv(poolKey c fk \<mapsto> vals)) n ?s = (None, fkv', st')"
      by (cases a) (auto simp: invoke_def split: if_splits)
    show ?thesis
    proof (cases "k = poolKey c fk")
      case True
      have "(fkv(poolKey c fk \<mapsto> vals)) k = Some vals" using True by simp
      from Cons.IH[OF rec this]
      have "fkv' k = Some vals \<or> (\<exists>pool. fkv' k = Some pool \<and> served C t cs n k pool)" .
      moreover have "served C t (c # cs) n k vals"
        using Some f v True by (auto simp: served_def)
      ultimately show ?thesis using served_Cons by blast
    next
      case False
      then have "(fkv(poolKey c fk \<mapsto> vals)) k = Some p" using Cons.prems(2) by simp
      from Cons.IH[OF rec this] show ?thesis using served_Cons by blast
    qed
  qed
qed

lemma getForeignKeyValues_served:
  "getForeignKeyValues C t cs fkv n st = (None, fkv', st') \<Longrightarrow>
   c \<in> set cs \<Longrightarrow> c_foreignKey c = Some fk \<Longrightarrow>
   \<exists>pool. fkv' (poolKey c fk) = Some pool \<and> served C t cs n (poolKey c fk) pool"
proof (induction cs arbitrary: fkv st)
  case Nil
  then show ?case by simp
next
  case (Cons x xs)
  show ?case
  proof (cases "c_foreignKey x")
    case None
    then have "c \<noteq> x" using Cons.prems(3) by auto
    then have in_xs: "c \<in> set xs" using Cons.prems(2) by simp
    have rec: "getForeignKeyValues C t xs fkv n st = (None, fkv', st')"
      using Cons.prems(1) None by simp
    from Cons.IH[OF rec in_xs Cons.prems(3)] show ?thesis using served_Cons by blast
  next
    case (Some fkx)
    obtain a w where f: "fetch C t x fkx n (world st) = (a, w)"
      by (cases "fetch C t x fkx n (world st)")
    let ?s = "st\<lparr>world := w, calls := calls st @ [fetchCall t x fkx n]\<rparr>"
    from Cons.prems(1) Some f obtain vals where v: "a = Inr vals"
      and rec: "getForeignKeyValues C t xs (fkv(poolKey x fkx \<mapsto> vals)) n ?s = (None, fkv', st')"
      by (cases a) (auto simp: invoke_def split: if_splits)
    show ?thesis
    proof (cases "c \<in> set xs")
      case True
      from Cons.IH[OF rec True Cons.prems(3)] show ?thesis using served_Cons by blast
    next
      case False
      then have cx: "c = x" using Cons.prems(2) by simp
      then have fkeq: "fkx = fk" using Some Cons.prems(3) by simp
      have "(fkv(poolKey x fkx \<mapsto> vals)) (poolKey c fk) = Some vals" using cx fkeq by simp
      from getForeignKeyValues_keeps[OF rec this]
      have "fkv' (poolKey c fk) = Some vals
            \<or> (\<exists>pool. fkv' (poolKey c fk) = Some pool \<and> served C t xs n (poolKey c fk) pool)" .
      moreover have "served C t (x # xs) n (poolKey c fk) vals"
        using Some f v cx fkeq by (auto simp: served_def)
      ultimately show ?thesis using served_Cons by blast
    qed
  qed
qed

lemma genColumn_other:
  "genColumn R sch fkv i c r w = (Inr r', w') \<Longrightarrow> nm \<noteq> c_name c \<Longrightarrow> r' nm = r nm"
  by (auto simp: genColumn_def split: if_splits prod.splits sum.splits option.splits)

lemma genRow_other:
  "genRow R sch fkv i cs r w = (Inr r', w') \<Longrightarrow> nm \<notin> c_name ` set cs \<Longrightarrow> r' nm = r nm"
proof (induction cs arbitrary: r w)
  case Nil
  then show ?case by simp
next
  case (Cons c cs)
  from Cons.prems(1) obtain r1 w1 where
    g: "genColumn R sch fkv i c r w = (Inr r1, w1)" and rest: "genRow R sch fkv i cs r1 w1 = (Inr r', w')"
    by (auto split: prod.splits sum.splits)
  have "r' nm = r1 nm" using Cons.IH[OF rest] Cons.prems(2) by simp
  also have "r1 nm = r nm" using genColumn_other[OF g] Cons.prems(2) by simp
  finally show ?case .
qed

lemma genColumn_fk:
  "c_foreignKey c = Some fk \<Longrightarrow> \<not> hasValues c \<Longrightarrow> fkv (poolKey c fk) = Some pool \<Longrightarrow>
   genColumn R sch fkv i c r w =
     (Inr (if o_autoIncrement (c_options c) then r else r(c_name c \<mapsto> elemAt pool (int i))), w)"
  by (simp add: genColumn_def)

lemma genRow_fk:
  assumes "genRow R sch fkv i cs r w = (Inr r', w')"
    and "c \<in> set cs" and "distinct (map c_name cs)"
    and "c_foreignKey c = Some fk" and "\<not> hasValues c" and "fkv (poolKey c fk) = Some pool"
  shows "r' (c_name c) =
           (if o_autoIncrement (c_options c) then r (c_name c) else Some (elemAt pool (int i)))"
  using assms(1-3)
proof (induction cs arbitrary: r w)
  case Nil
  then show ?case by simp
next
  case (Cons x xs)
  from Cons.prems(1) obtain r1 w1 where
    g: "genColumn R sch fkv i x r w = (Inr r1, w1)" and rest: "genRow R sch fkv i xs r1 w1 = (Inr r', w')"
    by (auto split: prod.splits sum.splits)
  show ?case
  proof (cases "c = x")
    case True
    have "c_name c \<notin> c_name ` set xs" using Cons.prems(3) True by auto
    then have "r' (c_name c) = r1 (c_name c)" using genRow_other[OF rest] by simp
    moreover have "r1 = (if o_autoIncrement (c_options c) then r else r(c_name c \<mapsto> elemAt pool (int i)))"
      using g genColumn_fk[where fkv = fkv and R = R and sch = sch and i = i and r = r and w = w,
          OF assms(4-6)] True by simp
    ultimately show ?thesis by simp
  next
    case False
    then have in_xs: "c \<in> set xs" using Cons.prems(2) by simp
    have d: "distinct (map c_name xs)" using Cons.prems(3) by simp
    have "c_name c \<in> c_name ` set xs" using in_xs by (rule imageI)
    then have "c_name c \<noteq> c_name x" using Cons.prems(3) by auto
    then have "r1 (c_name c) = r (c_name c)" using genColumn_other[OF g] by simp
    then show ?thesis using Cons.IH[OF rest in_xs d] by simp
  qed
qed

lemma genRows_rows:
  "genRows R sch fkv cs idxs acc w = (Inr rows, w') \<Longrightarrow>
   \<exists>new. rows = acc @ new \<and> length new = length idxs
     \<and> (\<forall>j < length idxs. \<exists>wj wj'.
           genRow R sch fkv (idxs ! j) cs Map.empty wj = (Inr (new ! j), wj'))"
proof (induction idxs arbitrary: acc w)
  case Nil
  then show ?case by simp
next
  case (Cons i "is")
  from Cons.prems obtain r w1 where
    g: "genRow R sch fkv i cs Map.empty w = (Inr r, w1)"
    and rest: "genRows R sch fkv cs is (acc @ [r]) w1 = (Inr rows, w')"
    by (auto split: prod.splits sum.splits)
  from Cons.IH[OF rest] obtain new where new: "rows = (acc @ [r]) @ new" "length new = length is"
    "\<forall>j < length is. \<exists>wj wj'. genRow R sch fkv (is ! j) cs Map.empty wj = (Inr (new ! j), wj')"
    by blast
  have "\<exists>wj wj'. genRow R sch fkv ((i # is) ! j) cs Map.empty wj = (Inr ((r # new) ! j), wj')"
    if "j < length (i # is)" for j
    using that g new(3) by (cases j) auto
  then show ?case using new(1,2) by (intro exI[of _ "r # new"]) simp
qed

lemma genRows_fk:
  assumes "genRows R sch fkv cs idxs acc w = (Inr rows, w')"
    and "c \<in> set cs" and "distinct (map c_name cs)"
    and "c_foreignKey c = Some fk" and "\<not> hasValues c" and "fkv (poolKey c fk) = Some pool"
    and "j < length idxs"
  shows "(rows ! (length acc + j)) (c_name c) =
           (if o_autoIncrement (c_options c) then None else Some (elemAt pool (int (idxs ! j))))"
proof -
  from genRows_rows[OF assms(1)] assms(7) obtain new wj wj' where
    new: "rows = acc @ new" "length new = length idxs"
    "genRow R sch fkv (idxs ! j) cs Map.empty wj = (Inr (new ! j), wj')" by blast
  have "rows ! (length acc + j) = new ! j" using new(1) by simp
  then show ?thesis using genRow_fk[OF new(3) assms(2-6)] by simp
qed

lemma elemAt_in: "i < length xs \<Longrightarrow> elemAt xs (int i) = xs ! i"
  by (simp add: elemAt_def)

lemma elemAt_out: "length xs \<le> i \<Longrightarrow> elemAt xs (int i) = JUndefined"
  by (simp add: elemAt_def)

text \<open>
  C9, as amended. In a pass whose foreign-key fetch succeeded with the pools \<open>fkv\<close>,
  let \<open>c\<close> be a foreign-key column that is not auto-increment and has no values
  override, in a table whose column names are distinct. Then the batch has
  \<open>runRows\<close> rows, and the row at index \<open>i\<close> holds for \<open>c\<close> the entry
  at index \<open>i\<close> of the pool stored under the column's key, a pool that
  \<^verbatim>\<open>getValuesForForeignKeys\<close> returned for that key in this fetch; beyond
  the end of the pool it holds \<^verbatim>\<open>undefined\<close>.
\<close>

theorem foreign_key_values:
  assumes fetched: "getForeignKeyValues C t (t_columns t) fkv0 runRows st = (None, fkv, st1)"
    and rows: "genRows R sch fkv (t_columns t) [0..<nat runRows] [] (world st1) = (Inr rows, w')"
    and col: "c \<in> set (t_columns t)"
    and fk: "c_foreignKey c = Some fk"
    and nov: "\<not> hasValues c"
    and noauto: "\<not> o_autoIncrement (c_options c)"
    and names: "distinct (map c_name (t_columns t))"
    and i: "i < nat runRows"
  shows "length rows = nat runRows
    \<and> (\<exists>pool. fkv (poolKey c fk) = Some pool
          \<and> served C t (t_columns t) runRows (poolKey c fk) pool
          \<and> (i < length pool \<longrightarrow> (rows ! i) (c_name c) = Some (pool ! i))
          \<and> (length pool \<le> i \<longrightarrow> (rows ! i) (c_name c) = Some JUndefined))"
proof -
  from getForeignKeyValues_served[OF fetched col fk] obtain pool where
    p: "fkv (poolKey c fk) = Some pool" "served C t (t_columns t) runRows (poolKey c fk) pool"
    by blast
  have l: "length rows = nat runRows" using genRows_length[OF rows] by simp
  have "i < length [0..<nat runRows]" using i by simp
  from genRows_fk[OF rows col names fk nov p(1) this]
  have v: "(rows ! i) (c_name c) = Some (elemAt pool (int i))"
    using noauto i by simp
  show ?thesis using l p v by (auto simp: elemAt_in elemAt_out)
qed

lemmas fk_defs = orders_def ordersAuto_def userPool_def fetch_def fetchCall_def poolKey_def
  countingDb_def start_def invoke_def plainOptions_def genColumn_def hasValues_def elemAt_def
  upt_rec eval_nat_numeral

theorem foreign_key_values_witness:
  "getForeignKeyValues (countingDb userPool allRows) orders (t_columns orders) Map.empty 3 (start 0)
     = (None, [''user_id_users_id'' \<mapsto> userPool],
        \<lparr> world = 0,
          calls = [GetValuesForForeignKeys ''orders'' ''user_id'' ''users'' ''id'' 3 False None],
          console = [] \<rparr>)
   \<and> genRows (fixedRandomizer 0) sampleSchema [''user_id_users_id'' \<mapsto> userPool]
        (t_columns orders) [0..<nat 3] [] 0
     = (Inr [[''user_id'' \<mapsto> JNum 7], [''user_id'' \<mapsto> JNum 8], [''user_id'' \<mapsto> JUndefined]], 0)
   \<and> served (countingDb userPool allRows) orders (t_columns orders) 3 ''user_id_users_id'' userPool
   \<and> length userPool = 2"
proof -
  let ?C = "countingDb userPool allRows" and ?R = "fixedRandomizer 0"
  let ?c = "\<lparr> c_name = ''user_id'', c_generator = ''int'', c_options = plainOptions,
            c_foreignKey = Some \<lparr> fk_table = ''users'', fk_column = ''id'', fk_where = None \<rparr>,
            c_values = None \<rparr>"
  let ?fk = "\<lparr> fk_table = ''users'', fk_column = ''id'', fk_where = None \<rparr>"
  let ?s1 = "\<lparr> world = 0::int,
          calls = [GetValuesForForeignKeys ''orders'' ''user_id'' ''users'' ''id'' 3 False None],
          console = [] \<rparr>"
  let ?rows = "[[''user_id'' \<mapsto> JNum 7], [''user_id'' \<mapsto> JNum 8], [''user_id'' \<mapsto> JUndefined]] :: row list"
  have g: "getForeignKeyValues ?C orders (t_columns orders) Map.empty 3 (start 0)
     = (None, [''user_id_users_id'' \<mapsto> userPool], ?s1)"
    by (simp add: fk_defs)
  have r: "genRows ?R sampleSchema [''user_id_users_id'' \<mapsto> userPool] (t_columns orders)
             [0..<nat 3] [] (world ?s1) = (Inr ?rows, 0)"
    by (simp add: fk_defs)
  have col: "?c \<in> set (t_columns orders)" by (simp add: orders_def)
  have fk: "c_foreignKey ?c = Some ?fk" by simp
  have nov: "\<not> hasValues ?c" by (simp add: hasValues_def)
  have noauto: "\<not> o_autoIncrement (c_options ?c)" by (simp add: plainOptions_def)
  have names: "distinct (map c_name (t_columns orders))" by (simp add: orders_def)
  have i: "(2::nat) < nat 3" by simp
  have key: "poolKey ?c ?fk = ''user_id_users_id''" by (simp add: poolKey_def)
  from foreign_key_values[OF g r col fk nov noauto names i]
  have "served ?C orders (t_columns orders) 3 ''user_id_users_id'' userPool"
    by (auto simp: key)
  then show ?thesis using g r by (simp add: userPool_def)
qed

text \<open>
  The claim as stated fails for a foreign-key column that is auto-increment: the pool is
  fetched, but the column is skipped and the rows hold no value for it.
\<close>

theorem foreign_key_values_counterexample:
  "getForeignKeyValues (countingDb userPool allRows) ordersAuto (t_columns ordersAuto) Map.empty 3
       (start 0)
     = (None, [''user_id_users_id'' \<mapsto> userPool],
        \<lparr> world = 0,
          calls = [GetValuesForForeignKeys ''orders'' ''user_id'' ''users'' ''id'' 3 False None],
          console = [] \<rparr>)
   \<and> genRows (fixedRandomizer 0) sampleSchema [''user_id_users_id'' \<mapsto> userPool]
        (t_columns ordersAuto) [0..<nat 3] [] 0
     = (Inr [Map.empty, Map.empty, Map.empty], 0)
   \<and> userPool ! 0 = JNum 7
   \<and> (Map.empty :: row) ''user_id'' \<noteq> Some (userPool ! 0)"
  by (simp add: fk_defs)

subsection \<open>The switch on the generator tag\<close>

lemma generated_uuid:
  assumes "uuidCase c"
  shows "(case uuid4 R w of (u, w1) \<Rightarrow> generated R sch c w = (Some (JStr u), w1))"
proof -
  from assms have u: "36 \<le> o_max (c_options c)" "o_unique (c_options c)"
    by (auto simp: uuidCase_def)
  from assms consider "c_generator c = ''varchar''" | "c_generator c = ''char''"
    | "c_generator c = ''binary''" | "c_generator c = ''varbinary''"
    by (auto simp: uuidCase_def stringTags_def)
  then show ?thesis
  proof cases
    case 1 then show ?thesis using u by (simp add: generated_def Let_def split: prod.splits)
  next
    case 2 then show ?thesis using u by (simp add: generated_def Let_def split: prod.splits)
  next
    case 3 then show ?thesis using u by (simp add: generated_def Let_def split: prod.splits)
  next
    case 4 then show ?thesis using u by (simp add: generated_def Let_def split: prod.splits)
  qed
qed

text \<open>
  The null step of the other arms. For a nullable column whose tag is a case of the switch
  other than \<^verbatim>\<open>enum\<close>, outside the UUID case: the value stored is decided by
  one draw \<open>r\<close> of \<^verbatim>\<open>Math.random\<close>, made after the value \<open>v\<close> was
  synthesized (\<open>v\<close> is what the same column gets when it is required): null when
  \<open>r \<le> 0.1\<close>, and \<open>v\<close> otherwise.
\<close>

lemma null_step_elsewhere:
  assumes nullable: "o_nullable (c_options c)"
    and tag: "c_generator c \<in> set nullableTags"
    and other: "\<not> uuidCase c"
  shows "\<exists>v w1. generated R sch (notNull c) w = (Some v, w1)
           \<and> (case mathRandom R w1 of (r, w2) \<Rightarrow>
                 generated R sch c w = (Some (if r \<le> js_tenth then JNull else v), w2))"
proof -
  have s: "c_generator c \<in> set stringTags \<Longrightarrow>
           \<not> (36 \<le> o_max (c_options c) \<and> o_unique (c_options c))"
    using other by (auto simp: uuidCase_def)
  note defs = generated_def orNull_def notNull_def Let_def
  from tag consider
      "c_generator c = ''bit''" | "c_generator c = ''tinyint''" | "c_generator c = ''bool''"
    | "c_generator c = ''boolean''" | "c_generator c = ''smallint''"
    | "c_generator c = ''mediumint''" | "c_generator c = ''int''" | "c_generator c = ''integer''"
    | "c_generator c = ''bigint''" | "c_generator c = ''decimal''" | "c_generator c = ''dec''"
    | "c_generator c = ''float''" | "c_generator c = ''double''" | "c_generator c = ''date''"
    | "c_generator c = ''datetime''" | "c_generator c = ''timestamp''" | "c_generator c = ''time''"
    | "c_generator c = ''year''" | "c_generator c = ''varchar''" | "c_generator c = ''char''"
    | "c_generator c = ''binary''" | "c_generator c = ''varbinary''"
    | "c_generator c = ''tinyblob''" | "c_generator c = ''text''"
    | "c_generator c = ''mediumtext''" | "c_generator c = ''longtext''" | "c_generator c = ''blob''"
    | "c_generator c = ''mediumblob''" | "c_generator c = ''longblob''" | "c_generator c = ''set''"
    by (auto simp: nullableTags_def)
  then show ?thesis
  proof cases
    case 1 then show ?thesis using nullable by (auto simp: defs split: prod.splits)
  next
    case 2 then show ?thesis using nullable by (auto simp: defs split: prod.splits)
  next
    case 3 then show ?thesis using nullable by (auto simp: defs split: prod.splits)
  next
    case 4 then show ?thesis using nullable by (auto simp: defs split: prod.splits)
  next
    case 5 then show ?thesis using nullable by (auto simp: defs split: prod.splits)
  next
    case 6 then show ?thesis using nullable by (auto simp: defs split: prod.splits)
  next
    case 7 then show ?thesis using nullable by (auto simp: defs split: prod.splits)
  next
    case 8 then show ?thesis using nullable by (auto simp: defs split: prod.splits)
  next
    case 9 then show ?thesis using nullable by (auto simp: defs split: prod.splits)
  next
    case 10 then show ?thesis using nullable by (auto simp: defs split: prod.splits)
  next
    case 11 then show ?thesis using nullable by (auto simp: defs split: prod.splits)
  next
    case 12 then show ?thesis using nullable by (auto simp: defs split: prod.splits)
  next
    case 13 then show ?thesis using nullable by (auto simp: defs split: prod.splits)
  next
    case 14 then show ?thesis using nullable by (auto simp: defs split: prod.splits)
  next
    case 15 then show ?thesis using nullable by (auto simp: defs split: prod.splits)
  next
    case 16 then show ?thesis using nullable by (auto simp: defs split: prod.splits)
  next
    case 17 then show ?thesis using nullable by (auto simp: defs split: prod.splits)
  next
    case 18 then show ?thesis using nullable by (auto simp: defs split: prod.splits)
  next
    case 19 then show ?thesis using nullable s
      by (auto simp: defs stringTags_def split: prod.splits)
  next
    case 20 then show ?thesis using nullable s
      by (auto simp: defs stringTags_def split: prod.splits)
  next
    case 21 then show ?thesis using nullable s
      by (auto simp: defs stringTags_def split: prod.splits)
  next
    case 22 then show ?thesis using nullable s
      by (auto simp: defs stringTags_def split: prod.splits)
  next
    case 23 then show ?thesis using nullable by (auto simp: defs split: prod.splits)
  next
    case 24 then show ?thesis using nullable by (auto simp: defs split: prod.splits)
  next
    case 25 then show ?thesis using nullable by (auto simp: defs split: prod.splits)
  next
    case 26 then show ?thesis using nullable by (auto simp: defs split: prod.splits)
  next
    case 27 then show ?thesis using nullable by (auto simp: defs split: prod.splits)
  next
    case 28 then show ?thesis using nullable by (auto simp: defs split: prod.splits)
  next
    case 29 then show ?thesis using nullable by (auto simp: defs split: prod.splits)
  next
    case 30 then show ?thesis using nullable by (auto simp: defs split: prod.splits)
  qed
qed

text \<open>
  C4. The claim asks the null step of every nullable column that is synthesized by its
  tag, the UUID case included. The UUID branch does not make it: \<open>uuidColumn\<close> is a
  nullable \<^verbatim>\<open>varchar\<close> with \<open>max = 36\<close> and unique; with every draw of
  \<^verbatim>\<open>Math.random\<close> equal to \<open>0\<close>, which is at most \<open>0.1\<close>, its value is
  the UUID and not null, while the same column under the tag \<^verbatim>\<open>text\<close>, and
  the same column when it is not unique, are null.
\<close>

theorem uuid_branch_never_null:
  "o_nullable (c_options uuidColumn) \<and> c_generator uuidColumn = ''varchar''
   \<and> o_max (c_options uuidColumn) = 36 \<and> o_unique (c_options uuidColumn)
   \<and> c_foreignKey uuidColumn = None \<and> \<not> hasValues uuidColumn
   \<and> mathRandom (fixedRandomizer 0) 0 = (0, 0) \<and> 0 \<le> js_tenth
   \<and> generated (fixedRandomizer 0) sampleSchema uuidColumn 0 =
       (Some (JStr ''110ec58a-a0f2-4ac4-8393-c866d813b8d1''), 0)
   \<and> fst (generated (fixedRandomizer 0) sampleSchema uuidColumn 0) \<noteq> Some JNull
   \<and> genColumn (fixedRandomizer 0) sampleSchema Map.empty 0 uuidColumn Map.empty 0 =
       (Inr [''token'' \<mapsto> JStr ''110ec58a-a0f2-4ac4-8393-c866d813b8d1''], 0)
   \<and> generated (fixedRandomizer 0) sampleSchema (uuidColumn\<lparr>c_generator := ''text''\<rparr>) 0 =
       (Some JNull, 0)
   \<and> generated (fixedRandomizer 0) sampleSchema
        (uuidColumn\<lparr>c_options := (c_options uuidColumn)\<lparr>o_unique := False\<rparr>\<rparr>) 0 =
       (Some JNull, 0)"
  by (simp add: uuidColumn_def generated_def genColumn_def hasValues_def fixedRandomizer_def
        js_tenth_def orNull_def)

text \<open>
  C8. For a column with a string tag (\<^verbatim>\<open>varchar\<close>, \<^verbatim>\<open>char\<close>,
  \<^verbatim>\<open>binary\<close>, \<^verbatim>\<open>varbinary\<close>) the switch gives: when
  \<open>max \<ge> 36\<close> and the column is unique, the string of \<^verbatim>\<open>uuid4\<close> and
  nothing else; otherwise the string that \<^verbatim>\<open>randomString\<close> makes for the
  length that \<^verbatim>\<open>randomInt\<close> drew between \<open>min\<close> and the smaller of
  \<^verbatim>\<open>schema.maxCharLength\<close> and \<open>max\<close> (null instead, for a nullable
  column, when the draw of \<^verbatim>\<open>Math.random\<close> is at most \<open>0.1\<close>). With
  a Randomizer that draws integers within the bounds it is given and makes strings of the
  length asked, the string's length lies within those bounds. A column that is not
  auto-increment and has neither a values override nor a foreign key stores this value.
\<close>

theorem string_synthesis:
  assumes tag: "c_generator c \<in> set stringTags"
  shows "(36 \<le> o_max (c_options c) \<and> o_unique (c_options c) \<longrightarrow>
            (case uuid4 R w of (u, w1) \<Rightarrow> generated R sch c w = (Some (JStr u), w1)))
    \<and> (\<not> (36 \<le> o_max (c_options c) \<and> o_unique (c_options c)) \<longrightarrow>
         (case randomInt R (o_min (c_options c))
                 (min (s_maxCharLength sch) (o_max (c_options c))) w of (n, w1) \<Rightarrow>
          case randomString R n w1 of (s, w2) \<Rightarrow>
            (\<not> o_nullable (c_options c) \<longrightarrow> generated R sch c w = (Some (JStr s), w2))
            \<and> (o_nullable (c_options c) \<longrightarrow>
                 (case mathRandom R w2 of (r, w3) \<Rightarrow>
                    generated R sch c w = (Some (if r \<le> js_tenth then JNull else JStr s), w3)))))
    \<and> (\<not> (36 \<le> o_max (c_options c) \<and> o_unique (c_options c))
         \<and> (\<forall>lo hi w. lo \<le> hi \<longrightarrow>
                lo \<le> fst (randomInt R lo hi w) \<and> fst (randomInt R lo hi w) \<le> hi)
         \<and> (\<forall>n w. 0 \<le> n \<longrightarrow> int (length (fst (randomString R n w))) = n)
         \<and> 0 \<le> o_min (c_options c)
         \<and> o_min (c_options c) \<le> min (s_maxCharLength sch) (o_max (c_options c)) \<longrightarrow>
         (\<exists>v. fst (generated R sch c w) = Some v
            \<and> ((o_nullable (c_options c) \<and> v = JNull)
               \<or> (\<exists>s. v = JStr s \<and> o_min (c_options c) \<le> int (length s)
                     \<and> int (length s) \<le> min (s_maxCharLength sch) (o_max (c_options c))))))
    \<and> (\<not> o_autoIncrement (c_options c) \<and> \<not> hasValues c \<and> c_foreignKey c = None \<longrightarrow>
         (\<exists>v w1. generated R sch c w = (Some v, w1)
            \<and> genColumn R sch fkv i c row w = (Inr (row(c_name c \<mapsto> v)), w1)))"
proof -
  let ?lo = "o_min (c_options c)" and ?hi = "min (s_maxCharLength sch) (o_max (c_options c))"
  let ?u = "36 \<le> o_max (c_options c) \<and> o_unique (c_options c)"
  have uc: "?u \<Longrightarrow> uuidCase c" using tag by (simp add: uuidCase_def)
  have A: "case uuid4 R w of (u, w1) \<Rightarrow> generated R sch c w = (Some (JStr u), w1)" if "?u"
    using generated_uuid[OF uc[OF that]] .
  obtain n w1 where ri: "randomInt R ?lo ?hi w = (n, w1)" by (cases "randomInt R ?lo ?hi w")
  obtain s w2 where rs: "randomString R n w1 = (s, w2)" by (cases "randomString R n w1")
  obtain r w3 where mr: "mathRandom R w2 = (r, w3)" by (cases "mathRandom R w2")
  have g: "generated R sch c w = orNull R c (JStr s) w2" if "\<not> ?u"
  proof -
    from tag consider "c_generator c = ''varchar''" | "c_generator c = ''char''"
      | "c_generator c = ''binary''" | "c_generator c = ''varbinary''"
      by (auto simp: stringTags_def)
    then show ?thesis
    proof cases
      case 1 then show ?thesis using that ri rs by (auto simp: generated_def Let_def)
    next
      case 2 then show ?thesis using that ri rs by (auto simp: generated_def Let_def)
    next
      case 3 then show ?thesis using that ri rs by (auto simp: generated_def Let_def)
    next
      case 4 then show ?thesis using that ri rs by (auto simp: generated_def Let_def)
    qed
  qed
  have B: "case randomInt R ?lo ?hi w of (n, w1) \<Rightarrow>
          case randomString R n w1 of (s, w2) \<Rightarrow>
            (\<not> o_nullable (c_options c) \<longrightarrow> generated R sch c w = (Some (JStr s), w2))
            \<and> (o_nullable (c_options c) \<longrightarrow>
                 (case mathRandom R w2 of (r, w3) \<Rightarrow>
                    generated R sch c w = (Some (if r \<le> js_tenth then JNull else JStr s), w3)))"
    if "\<not> ?u"
    using g[OF that] ri rs mr by (simp add: orNull_def)
  have C: "\<exists>v. fst (generated R sch c w) = Some v
            \<and> ((o_nullable (c_options c) \<and> v = JNull)
               \<or> (\<exists>s. v = JStr s \<and> ?lo \<le> int (length s) \<and> int (length s) \<le> ?hi))"
    if nu: "\<not> ?u"
      and rint: "\<forall>lo hi w. lo \<le> hi \<longrightarrow>
                lo \<le> fst (randomInt R lo hi w) \<and> fst (randomInt R lo hi w) \<le> hi"
      and rstr: "\<forall>n w. 0 \<le> n \<longrightarrow> int (length (fst (randomString R n w))) = n"
      and lo0: "0 \<le> ?lo" and lohi: "?lo \<le> ?hi"
  proof -
    have n: "?lo \<le> n \<and> n \<le> ?hi" using rint lohi ri by (metis fst_conv)
    then have "0 \<le> n" using lo0 by simp
    then have "int (length s) = n" using rstr rs by (metis fst_conv)
    then show ?thesis using g[OF nu] mr n by (auto simp: orNull_def)
  qed
  have D: "\<exists>v w1. generated R sch c w = (Some v, w1)
            \<and> genColumn R sch fkv i c row w = (Inr (row(c_name c \<mapsto> v)), w1)"
    if "\<not> o_autoIncrement (c_options c) \<and> \<not> hasValues c \<and> c_foreignKey c = None"
  proof (cases ?u)
    case True
    then show ?thesis using A[OF True] that
      by (cases "uuid4 R w") (simp add: genColumn_def)
  next
    case False
    then show ?thesis using g[OF False] that mr
      by (simp add: genColumn_def orNull_def)
  qed
  show ?thesis using A B C D by blast
qed

theorem string_synthesis_witness:
  "c_generator uuidColumn \<in> set stringTags
   \<and> 36 \<le> o_max (c_options uuidColumn) \<and> o_unique (c_options uuidColumn)
   \<and> generated (fixedRandomizer (1/2)) sampleSchema uuidColumn 0 =
       (Some (JStr ''110ec58a-a0f2-4ac4-8393-c866d813b8d1''), 0)
   \<and> c_generator noteColumn \<in> set stringTags \<and> \<not> o_unique (c_options noteColumn)
   \<and> o_min (c_options noteColumn) = 2
   \<and> min (s_maxCharLength sampleSchema) (o_max (c_options noteColumn)) = 8
   \<and> generated (fixedRandomizer (1/2)) sampleSchema noteColumn 0 = (Some (JStr ''xxxxxxxx''), 0)
   \<and> genColumn (fixedRandomizer (1/2)) sampleSchema Map.empty 0 noteColumn Map.empty 0 =
       (Inr [''note'' \<mapsto> JStr ''xxxxxxxx''], 0)"
proof -
  let ?R = "fixedRandomizer (1/2)"
  have t: "c_generator uuidColumn \<in> set stringTags" by (simp add: uuidColumn_def stringTags_def)
  have u: "36 \<le> o_max (c_options uuidColumn) \<and> o_unique (c_options uuidColumn)"
    by (simp add: uuidColumn_def)
  have t': "c_generator noteColumn \<in> set stringTags" by (simp add: noteColumn_def stringTags_def)
  have nu: "\<not> (36 \<le> o_max (c_options noteColumn) \<and> o_unique (c_options noteColumn))"
    by (simp add: noteColumn_def)
  have plain: "\<not> o_autoIncrement (c_options noteColumn) \<and> \<not> hasValues noteColumn
                 \<and> c_foreignKey noteColumn = None"
    by (simp add: noteColumn_def hasValues_def)
  from string_synthesis[OF t, where R = ?R and w = 0 and sch = sampleSchema and fkv = Map.empty
      and i = 0 and row = Map.empty] u
  have a: "generated ?R sampleSchema uuidColumn 0 =
       (Some (JStr ''110ec58a-a0f2-4ac4-8393-c866d813b8d1''), 0)"
    by (simp add: fixedRandomizer_def)
  have b: "generated ?R sampleSchema noteColumn 0 = (Some (JStr ''xxxxxxxx''), 0)"
    by (simp add: generated_def noteColumn_def fixedRandomizer_def orNull_def sampleSchema_def
          js_tenth_def eval_nat_numeral)
  from string_synthesis[OF t', where R = ?R and w = 0 and sch = sampleSchema and fkv = Map.empty
      and i = 0 and row = Map.empty] plain b
  have c: "genColumn ?R sampleSchema Map.empty 0 noteColumn Map.empty 0 =
       (Inr [''note'' \<mapsto> JStr ''xxxxxxxx''], 0)"
    by (auto simp: noteColumn_def)
  show ?thesis using t u t' nu a b c
    by (simp add: noteColumn_def sampleSchema_def)
qed

end
